theory Spec2Isabelle
  imports Main "HOL-Library.Option_ord"
begin

section \<open>Data model (fks.go, sync.go)\<close>

text \<open>
  \<^verbatim>\<open>type ForeignKey struct { FromTable, FromColumn, ToTable, ToColumn string; IsNullable bool }\<close>
  \<^verbatim>\<open>type FkEdge struct { ParentTable, ParentColumn, ChildColumn string }\<close>
\<close>

record ForeignKey =
  FromTable :: string
  FromColumn :: string
  ToTable :: string
  ToColumn :: string
  IsNullable :: bool

record FkEdge =
  ParentTable :: string
  ParentColumn :: string
  ChildColumn :: string

text \<open>
  Go maps are partial maps. Reading a missing key yields the zero value of the value
  type (a nil slice, a nil map, 0, false); the readers below write that default out.
  A \<^verbatim>\<open>range\<close> over a Go map visits every key once, in an order the language leaves
  open: each such loop takes the order of this run as a key list, and \<open>rangeEntries\<close>
  are the entries visited. \<open>rangeOrder m ks\<close> says that \<open>ks\<close> is an order a Go run
  can take over the map \<open>m\<close>.
\<close>

definition rangeEntries :: "('k \<rightharpoonup> 'v) \<Rightarrow> 'k list \<Rightarrow> ('k \<times> 'v) list" where
  "rangeEntries m ks = List.map_filter (\<lambda>k. map_option (Pair k) (m k)) ks"

definition rangeOrder :: "('k \<rightharpoonup> 'v) \<Rightarrow> 'k list \<Rightarrow> bool" where
  "rangeOrder m ks = (distinct ks \<and> set ks = dom m)"

definition edgesOf :: "(string \<rightharpoonup> FkEdge list) \<Rightarrow> string \<Rightarrow> FkEdge list" where
  "edgesOf m t = (case m t of None \<Rightarrow> [] | Some es \<Rightarrow> es)"

definition idsOf :: "(string \<rightharpoonup> int set) \<Rightarrow> string \<Rightarrow> int set" where
  "idsOf rs t = (case rs t of None \<Rightarrow> {} | Some s \<Rightarrow> s)"

section \<open>The source and destination stores\<close>

text \<open>
  The two \<^verbatim>\<open>*sql.DB\<close> handles are the program's environment. A database is a finite
  collection of named tables; a table has a column list and rows of cells, a cell being
  NULL (\<open>None\<close>) or an integer. Only integer columns are modelled, and cell values are
  taken to lie in the int64 range (the program does no arithmetic on them). A statement
  fails when it is malformed (a negative LIMIT), names a missing table or a missing
  column; \<^verbatim>\<open>rows.Scan\<close> into an \<^verbatim>\<open>int64\<close> fails on NULL.
\<close>

type_synonym cell = "int option"

record table =
  Columns :: "string list"
  Rows :: "cell list list"

type_synonym database = "string \<rightharpoonup> table"

datatype db_error =
  SyntaxError
  | NoSuchTable string
  | UnknownColumn string
  | ScanError

fun colIndex :: "string list \<Rightarrow> string \<Rightarrow> nat option" where
  "colIndex [] c = None"
| "colIndex (x # xs) c = (if x = c then Some 0 else map_option Suc (colIndex xs c))"

definition cellAt :: "cell list \<Rightarrow> nat \<Rightarrow> cell" where
  "cellAt r i = (if i < length r then r ! i else None)"

definition idIn :: "cell list \<Rightarrow> nat \<Rightarrow> int set \<Rightarrow> bool" where
  \<comment> \<open>\<^verbatim>\<open>id IN (...)\<close>: a NULL id matches nothing.\<close>
  "idIn r i ids = (case cellAt r i of None \<Rightarrow> False | Some v \<Rightarrow> v \<in> ids)"

definition selectIds :: "database \<Rightarrow> string \<Rightarrow> int \<Rightarrow> db_error + cell list" where
  \<comment> \<open>\<^verbatim>\<open>SELECT id FROM t ORDER BY id LIMIT n\<close>; NULL sorts first, as \<open>None\<close> does.\<close>
  "selectIds db t n =
     (if n < 0 then Inl SyntaxError
      else case db t of
        None \<Rightarrow> Inl (NoSuchTable t)
      | Some tb \<Rightarrow>
          (case colIndex (Columns tb) ''id'' of
             None \<Rightarrow> Inl (UnknownColumn ''id'')
           | Some i \<Rightarrow> Inr (take (nat n) (sort (map (\<lambda>r. cellAt r i) (Rows tb))))))"

definition selectDistinct :: "database \<Rightarrow> string \<Rightarrow> string \<Rightarrow> int set \<Rightarrow> db_error + cell list" where
  \<comment> \<open>\<^verbatim>\<open>SELECT DISTINCT c FROM t WHERE id IN (ids) AND c IS NOT NULL\<close>\<close>
  "selectDistinct db c t ids =
     (case db t of
        None \<Rightarrow> Inl (NoSuchTable t)
      | Some tb \<Rightarrow>
          (case colIndex (Columns tb) c of
             None \<Rightarrow> Inl (UnknownColumn c)
           | Some j \<Rightarrow>
               (case colIndex (Columns tb) ''id'' of
                  None \<Rightarrow> Inl (UnknownColumn ''id'')
                | Some i \<Rightarrow>
                    Inr (remdups (map (\<lambda>r. cellAt r j)
                      (filter (\<lambda>r. idIn r i ids \<and> cellAt r j \<noteq> None) (Rows tb)))))))"

definition selectRows :: "database \<Rightarrow> string \<Rightarrow> int set \<Rightarrow> db_error + (cell list list \<times> string list)" where
  \<comment> \<open>\<^verbatim>\<open>SELECT * FROM t WHERE id IN (ids)\<close>, with the column names.\<close>
  "selectRows db t ids =
     (case db t of
        None \<Rightarrow> Inl (NoSuchTable t)
      | Some tb \<Rightarrow>
          (case colIndex (Columns tb) ''id'' of
             None \<Rightarrow> Inl (UnknownColumn ''id'')
           | Some i \<Rightarrow>
               Inr (map (\<lambda>r. map (cellAt r) [0 ..< length (Columns tb)])
                      (filter (\<lambda>r. idIn r i ids) (Rows tb)), Columns tb)))"

definition execTruncate :: "database \<Rightarrow> string \<Rightarrow> db_error + database" where
  \<comment> \<open>\<^verbatim>\<open>TRUNCATE TABLE t\<close>\<close>
  "execTruncate db t =
     (case db t of
        None \<Rightarrow> Inl (NoSuchTable t)
      | Some tb \<Rightarrow> Inr (db(t \<mapsto> tb\<lparr>Rows := []\<rparr>)))"

definition placeRow :: "string list \<Rightarrow> string list \<Rightarrow> cell list \<Rightarrow> cell list" where
  \<comment> \<open>The stored row of an INSERT with a column list: a column not named is NULL.\<close>
  "placeRow tcols cols vals =
     map (\<lambda>c. case colIndex cols c of None \<Rightarrow> None | Some k \<Rightarrow> cellAt vals k) tcols"

definition execInsert :: "database \<Rightarrow> string \<Rightarrow> string list \<Rightarrow> cell list list \<Rightarrow> db_error + database" where
  \<comment> \<open>\<^verbatim>\<open>INSERT INTO t (cols) VALUES (...),(...)\<close>; constraints of the destination
      are not modelled.\<close>
  "execInsert db t cols rowsData =
     (case db t of
        None \<Rightarrow> Inl (NoSuchTable t)
      | Some tb \<Rightarrow>
          (case filter (\<lambda>c. colIndex (Columns tb) c = None) cols of
             c # _ \<Rightarrow> Inl (UnknownColumn c)
           | [] \<Rightarrow> Inr (db(t \<mapsto> tb\<lparr>Rows := Rows tb @ map (placeRow (Columns tb) cols) rowsData\<rparr>))))"

section \<open>The helpers of sync.go\<close>

datatype sort_error = CycleOrMissingTable

datatype error =
  FetchSomeIDsError string db_error
  | FetchReferencedParentIDsError db_error
  | TopoSortError sort_error
  | TruncateError string db_error
  | FetchRowsByIDsError db_error
  | InsertRowsError db_error
  | NilMapPanic

text \<open>
  The constructors are the \<^verbatim>\<open>fmt.Errorf\<close> wrappers of \<^verbatim>\<open>SyncPartialData\<close>, with the
  values they format: \<^verbatim>\<open>"fetchSomeIDs error for table %s: %w"\<close>,
  \<^verbatim>\<open>"fetchReferencedParentIDs error: %w"\<close>, \<^verbatim>\<open>"topoSort error: %w"\<close>,
  \<^verbatim>\<open>"truncate error on %s: %w"\<close>, \<^verbatim>\<open>"fetchRowsByIDs error: %w"\<close>,
  \<^verbatim>\<open>"insertRows error: %w"\<close>. \<open>NilMapPanic\<close> is the run-time panic of an
  assignment to an entry of a nil map. \<open>CycleOrMissingTable\<close> is the error of
  \<^verbatim>\<open>partialTopoSort\<close>, "topological sort: cycle detected or missing table references".
\<close>

fun scanAll :: "cell list \<Rightarrow> db_error + int list" where
  "scanAll [] = Inr []"
| "scanAll (None # cs) = Inl ScanError"
| "scanAll (Some v # cs) = (case scanAll cs of Inl e \<Rightarrow> Inl e | Inr vs \<Rightarrow> Inr (v # vs))"

definition fetchSomeIDs :: "database \<Rightarrow> string \<Rightarrow> int \<Rightarrow> db_error + int list" where
  "fetchSomeIDs db t limit =
     (case selectIds db t limit of Inl e \<Rightarrow> Inl e | Inr cs \<Rightarrow> scanAll cs)"

definition fetchReferencedParentIDs ::
  "database \<Rightarrow> string \<Rightarrow> FkEdge \<Rightarrow> int set \<Rightarrow> db_error + int set" where
  "fetchReferencedParentIDs db childTable edge childIDs =
     (if childIDs = {} then Inr {}
      else case selectDistinct db (ChildColumn edge) childTable childIDs of
        Inl e \<Rightarrow> Inl e
      | Inr cs \<Rightarrow> (case scanAll cs of Inl e \<Rightarrow> Inl e | Inr vs \<Rightarrow> Inr (set vs)))"

definition fetchRowsByIDs ::
  "database \<Rightarrow> string \<Rightarrow> int set \<Rightarrow> db_error + (cell list list \<times> string list)" where
  "fetchRowsByIDs db t idSet =
     (if idSet = {} then Inr ([], []) else selectRows db t idSet)"

definition insertRows ::
  "database \<Rightarrow> string \<Rightarrow> string list \<Rightarrow> cell list list \<Rightarrow> db_error + database" where
  "insertRows db t cols rowsData =
     (if rowsData = [] then Inr db else execInsert db t cols rowsData)"

definition truncateTable :: "database \<Rightarrow> string \<Rightarrow> db_error + database" where
  "truncateTable db t = execTruncate db t"

section \<open>SyncPartialData, steps 1 to 4: graph, row sets, seeds, closure\<close>

definition addEdge :: "(string \<rightharpoonup> FkEdge list) \<Rightarrow> ForeignKey \<Rightarrow> (string \<rightharpoonup> FkEdge list)" where
  "addEdge m fk =
     (if FromTable fk = ToTable fk then m
      else if IsNullable fk then m
      else m(FromTable fk \<mapsto> edgesOf m (FromTable fk) @
             [\<lparr>ParentTable = ToTable fk, ParentColumn = ToColumn fk, ChildColumn = FromColumn fk\<rparr>]))"

definition buildChildToParents :: "ForeignKey list \<Rightarrow> (string \<rightharpoonup> FkEdge list)" where
  "buildChildToParents allFks = foldl addEdge Map.empty allFks"

definition ensureSet :: "(string \<rightharpoonup> int set) \<Rightarrow> string \<Rightarrow> (string \<rightharpoonup> int set)" where
  "ensureSet rs t = (case rs t of None \<Rightarrow> rs(t \<mapsto> {}) | Some _ \<Rightarrow> rs)"

definition initRowSets ::
  "ForeignKey list \<Rightarrow> (string \<rightharpoonup> int) \<Rightarrow> string list \<Rightarrow> (string \<rightharpoonup> int set)" where
  "initRowSets allFks requestedTables ordInit =
     foldl (\<lambda>rs (tbl, _). ensureSet rs tbl)
       (foldl (\<lambda>rs fk. ensureSet (ensureSet rs (FromTable fk)) (ToTable fk)) Map.empty allFks)
       (rangeEntries requestedTables ordInit)"

definition insertIDs :: "(string \<rightharpoonup> int set) \<Rightarrow> string \<Rightarrow> int set \<Rightarrow> error + (string \<rightharpoonup> int set)" where
  \<comment> \<open>\<^verbatim>\<open>rowSets[table][id] = true\<close> for each id: panics on a nil inner map as soon as
      there is an id to write.\<close>
  "insertIDs rs t ids =
     (case rs t of
        None \<Rightarrow> if ids = {} then Inr rs else Inl NilMapPanic
      | Some s \<Rightarrow> Inr (rs(t \<mapsto> s \<union> ids)))"

fun seedRowSets ::
  "database \<Rightarrow> (string \<rightharpoonup> int set) \<Rightarrow> (string \<times> int) list \<Rightarrow> error + (string \<rightharpoonup> int set)" where
  "seedRowSets db rs [] = Inr rs"
| "seedRowSets db rs ((t, limit) # rest) =
     (case fetchSomeIDs db t limit of
        Inl e \<Rightarrow> Inl (FetchSomeIDsError t e)
      | Inr ids \<Rightarrow>
          (case insertIDs rs t (set ids) of
             Inl e \<Rightarrow> Inl e
           | Inr rs' \<Rightarrow> seedRowSets db rs' rest))"

text \<open>
  The state of the loop of step 4. \<open>enqueues\<close> is not a variable of the program: it
  counts the executions of the \<^verbatim>\<open>append\<close> inside the loop (line 133) and is read by
  no branch.
\<close>

record bfs_state =
  rowSets :: "string \<rightharpoonup> int set"
  queue :: "string list"
  enqueued :: "string \<Rightarrow> bool"
  enqueues :: nat

text \<open>
  The body of the inner loop, for one edge of the dequeued table. \<^verbatim>\<open>childIDs\<close> and
  \<^verbatim>\<open>parentSet\<close> are references to the inner maps of \<^verbatim>\<open>rowSets\<close>, so each is read
  from the current state. The loop over \<^verbatim>\<open>newParentIDs\<close> adds every id to the parent
  set and sets \<^verbatim>\<open>changed\<close> when one was new; on a nil parent set the first id panics.
\<close>

definition visitEdge :: "database \<Rightarrow> string \<Rightarrow> FkEdge \<Rightarrow> bfs_state \<Rightarrow> error + bfs_state" where
  "visitEdge db childTable edge st =
     (case fetchReferencedParentIDs db childTable edge (idsOf (rowSets st) childTable) of
        Inl e \<Rightarrow> Inl (FetchReferencedParentIDsError e)
      | Inr newParentIDs \<Rightarrow>
          (let changed = \<not> newParentIDs \<subseteq> idsOf (rowSets st) (ParentTable edge) in
           case insertIDs (rowSets st) (ParentTable edge) newParentIDs of
             Inl e \<Rightarrow> Inl e
           | Inr rs' \<Rightarrow>
               Inr (if changed \<and> \<not> enqueued st (ParentTable edge)
                    then st\<lparr>rowSets := rs', queue := queue st @ [ParentTable edge],
                            enqueued := (enqueued st)(ParentTable edge := True),
                            enqueues := Suc (enqueues st)\<rparr>
                    else st\<lparr>rowSets := rs'\<rparr>)))"

fun processEdges :: "database \<Rightarrow> string \<Rightarrow> FkEdge list \<Rightarrow> bfs_state \<Rightarrow> error + bfs_state" where
  "processEdges db childTable [] st = Inr st"
| "processEdges db childTable (edge # edges) st =
     (case visitEdge db childTable edge st of
        Inl e \<Rightarrow> Inl e
      | Inr st' \<Rightarrow> processEdges db childTable edges st')"

partial_function (option) bfsLoop ::
  "database \<Rightarrow> (string \<rightharpoonup> FkEdge list) \<Rightarrow> bfs_state \<Rightarrow> (error + bfs_state) option" where
  "bfsLoop db childToParents st =
     (case queue st of
        [] \<Rightarrow> Some (Inr st)
      | childTable # rest \<Rightarrow>
          (let st1 = st\<lparr>queue := rest, enqueued := (enqueued st)(childTable := False)\<rparr> in
           if idsOf (rowSets st1) childTable = {} then bfsLoop db childToParents st1
           else case processEdges db childTable (edgesOf childToParents childTable) st1 of
                  Inl e \<Rightarrow> Some (Inl e)
                | Inr st2 \<Rightarrow> bfsLoop db childToParents st2))"

text \<open>The iteration orders one run takes over \<^verbatim>\<open>requestedTables\<close> (lines 64, 76, 96).\<close>

record closure_order =
  ordInit :: "string list"
  ordSeed :: "string list"
  ordQueue :: "string list"

definition initialState :: "(string \<rightharpoonup> int) \<Rightarrow> string list \<Rightarrow> (string \<rightharpoonup> int set) \<Rightarrow> bfs_state" where
  "initialState requestedTables ordQ rs =
     \<lparr>rowSets = rs,
      queue = map fst (rangeEntries requestedTables ordQ),
      enqueued = (\<lambda>t. t \<in> set (map fst (rangeEntries requestedTables ordQ))),
      enqueues = 0\<rparr>"

definition closure ::
  "closure_order \<Rightarrow> database \<Rightarrow> ForeignKey list \<Rightarrow> (string \<rightharpoonup> int) \<Rightarrow> (error + bfs_state) option" where
  "closure ords prodDB allFks requestedTables =
     (case seedRowSets prodDB (initRowSets allFks requestedTables (ordInit ords))
             (rangeEntries requestedTables (ordSeed ords)) of
        Inl e \<Rightarrow> Some (Inl e)
      | Inr rs \<Rightarrow>
          bfsLoop prodDB (buildChildToParents allFks)
            (initialState requestedTables (ordQueue ords) rs))"

section \<open>partialTopoSort\<close>

text \<open>
  The iteration orders one call takes over \<^verbatim>\<open>depMap\<close> (line 386), over
  \<^verbatim>\<open>inDegree\<close> (line 394) and over \<^verbatim>\<open>depMap\<close> in each round of the main loop
  (line 407, \<open>ordChild n\<close> for round \<open>n\<close>).
\<close>

record topo_order =
  ordInDeg :: "string list"
  ordZero :: "string list"
  ordChild :: "nat \<Rightarrow> string list"

definition parentsOf :: "(string \<rightharpoonup> string list) \<Rightarrow> string \<Rightarrow> string list" where
  "parentsOf depMap t = (case depMap t of None \<Rightarrow> [] | Some ps \<Rightarrow> ps)"

definition degOf :: "(string \<rightharpoonup> int) \<Rightarrow> string \<Rightarrow> int" where
  "degOf inDegree t = (case inDegree t of None \<Rightarrow> 0 | Some d \<Rightarrow> d)"

definition buildNeededSet :: "string list \<Rightarrow> (string \<Rightarrow> bool)" where
  "buildNeededSet neededTables = foldl (\<lambda>s t. s(t := True)) (\<lambda>_. False) neededTables"

definition initDepMap :: "string list \<Rightarrow> (string \<rightharpoonup> string list)" where
  "initDepMap neededTables = foldl (\<lambda>m t. m(t \<mapsto> [])) Map.empty neededTables"

definition initInDegree :: "string list \<Rightarrow> (string \<rightharpoonup> int)" where
  "initInDegree neededTables = foldl (\<lambda>m t. m(t \<mapsto> 0)) Map.empty neededTables"

definition addDep ::
  "(string \<Rightarrow> bool) \<Rightarrow> (string \<rightharpoonup> string list) \<Rightarrow> ForeignKey \<Rightarrow> (string \<rightharpoonup> string list)" where
  "addDep neededSet depMap fk =
     (if FromTable fk = ToTable fk then depMap
      else if neededSet (FromTable fk) \<and> neededSet (ToTable fk) \<and> \<not> IsNullable fk
      then depMap(FromTable fk \<mapsto> parentsOf depMap (FromTable fk) @ [ToTable fk])
      else depMap)"

definition buildDepMap :: "ForeignKey list \<Rightarrow> string list \<Rightarrow> (string \<rightharpoonup> string list)" where
  "buildDepMap allFks neededTables =
     foldl (addDep (buildNeededSet neededTables)) (initDepMap neededTables) allFks"

definition countParents :: "(string \<rightharpoonup> int) \<Rightarrow> string \<times> string list \<Rightarrow> (string \<rightharpoonup> int)" where
  \<comment> \<open>\<^verbatim>\<open>for range parents { inDegree[table] = inDegree[table] + 1 }\<close>\<close>
  "countParents inDegree e =
     (case e of (t, parents) \<Rightarrow> foldl (\<lambda>d _. d(t \<mapsto> degOf d t + 1)) inDegree parents)"

definition calcInDegree ::
  "(string \<rightharpoonup> string list) \<Rightarrow> (string \<rightharpoonup> int) \<Rightarrow> string list \<Rightarrow> (string \<rightharpoonup> int)" where
  "calcInDegree depMap inDegree ord = foldl countParents inDegree (rangeEntries depMap ord)"

definition zeroQueue :: "(string \<rightharpoonup> int) \<Rightarrow> string list \<Rightarrow> string list" where
  "zeroQueue inDegree ord = map fst (filter (\<lambda>(t, deg). deg = 0) (rangeEntries inDegree ord))"

definition relax ::
  "string \<Rightarrow> (string \<rightharpoonup> int) \<times> string list \<Rightarrow> string \<times> string list \<Rightarrow> (string \<rightharpoonup> int) \<times> string list" where
  "relax cur s e =
     (case s of (inDegree, qu) \<Rightarrow> case e of (child, parents) \<Rightarrow>
        if cur \<in> set parents
        then (let inDegree' = inDegree(child \<mapsto> degOf inDegree child - 1) in
              if degOf inDegree' child = 0 then (inDegree', qu @ [child])
              else (inDegree', qu))
        else (inDegree, qu))"

text \<open>
  The main loop: \<open>qu\<close> is \<^verbatim>\<open>queue\<close>, \<open>srt\<close> is \<^verbatim>\<open>sorted\<close>, \<open>n\<close> counts the
  rounds. \<^verbatim>\<open>inDegree\<close> is a Go \<^verbatim>\<open>int\<close>; it is bounded by the length of
  \<^verbatim>\<open>allFks\<close>, so it never wraps.
\<close>

partial_function (option) kahnLoop ::
  "(string \<rightharpoonup> string list) \<Rightarrow> (nat \<Rightarrow> string list) \<Rightarrow> nat \<Rightarrow> (string \<rightharpoonup> int) \<Rightarrow>
     string list \<Rightarrow> string list \<Rightarrow> string list option" where
  "kahnLoop depMap ord n inDegree qu srt =
     (case qu of
        [] \<Rightarrow> Some srt
      | cur # rest \<Rightarrow>
          (let s = foldl (relax cur) (inDegree, rest) (rangeEntries depMap (ord n)) in
           kahnLoop depMap ord (Suc n) (fst s) (snd s) (srt @ [cur])))"

definition partialTopoSort ::
  "topo_order \<Rightarrow> ForeignKey list \<Rightarrow> string list \<Rightarrow> (sort_error + string list) option" where
  "partialTopoSort ords allFks neededTables =
     (let depMap = buildDepMap allFks neededTables;
          inDegree = calcInDegree depMap (initInDegree neededTables) (ordInDeg ords)
      in case kahnLoop depMap (ordChild ords) 0 inDegree (zeroQueue inDegree (ordZero ords)) [] of
           None \<Rightarrow> None
         | Some srt \<Rightarrow>
             Some (if length srt \<noteq> length neededTables then Inl CycleOrMissingTable
                   else Inr srt))"

section \<open>SyncPartialData, steps 5 to 7: schedule and copy\<close>

definition tablesNeedingCopy :: "(string \<rightharpoonup> int set) \<Rightarrow> string list \<Rightarrow> string list" where
  "tablesNeedingCopy rs ord = map fst (filter (\<lambda>(t, idSet). idSet \<noteq> {}) (rangeEntries rs ord))"

fun copyTables ::
  "database \<Rightarrow> (string \<rightharpoonup> int set) \<Rightarrow> bool \<Rightarrow> string list \<Rightarrow> database \<Rightarrow> error option \<times> database" where
  "copyTables prodDB rs resetTables [] devDB = (None, devDB)"
| "copyTables prodDB rs resetTables (t # rest) devDB =
     (if idsOf rs t = {} then copyTables prodDB rs resetTables rest devDB
      else case (if resetTables then truncateTable devDB t else Inr devDB) of
        Inl e \<Rightarrow> (Some (TruncateError t e), devDB)
      | Inr dev1 \<Rightarrow>
          (case fetchRowsByIDs prodDB t (idsOf rs t) of
             Inl e \<Rightarrow> (Some (FetchRowsByIDsError e), dev1)
           | Inr (rowsData, columns) \<Rightarrow>
               (case insertRows dev1 t columns rowsData of
                  Inl e \<Rightarrow> (Some (InsertRowsError e), dev1)
                | Inr dev2 \<Rightarrow> copyTables prodDB rs resetTables rest dev2)))"

text \<open>
  The result is the returned error (\<open>None\<close> for \<^verbatim>\<open>nil\<close>) and the destination
  database as the call leaves it; \<open>ordNeed\<close> is the order of the loop of line 143.
\<close>

definition SyncPartialData ::
  "closure_order \<Rightarrow> string list \<Rightarrow> topo_order \<Rightarrow> database \<Rightarrow> database \<Rightarrow> ForeignKey list \<Rightarrow>
     (string \<rightharpoonup> int) \<Rightarrow> bool \<Rightarrow> (error option \<times> database) option" where
  "SyncPartialData cords ordNeed tords prodDB devDB allFks requestedTables resetTables =
     (case closure cords prodDB allFks requestedTables of
        None \<Rightarrow> None
      | Some (Inl e) \<Rightarrow> Some (Some e, devDB)
      | Some (Inr st) \<Rightarrow>
          (case partialTopoSort tords allFks (tablesNeedingCopy (rowSets st) ordNeed) of
             None \<Rightarrow> None
           | Some (Inl e) \<Rightarrow> Some (Some (TopoSortError e), devDB)
           | Some (Inr srt) \<Rightarrow>
               Some (copyTables prodDB (rowSets st) resetTables srt devDB)))"

section \<open>Notions the properties are stated with\<close>

definition edgeOfFk :: "ForeignKey \<Rightarrow> FkEdge" where
  "edgeOfFk fk = \<lparr>ParentTable = ToTable fk, ParentColumn = ToColumn fk, ChildColumn = FromColumn fk\<rparr>"

definition hardFk :: "ForeignKey \<Rightarrow> bool" where
  \<comment> \<open>a relationship that is neither self-referencing nor nullable\<close>
  "hardFk fk = (FromTable fk \<noteq> ToTable fk \<and> \<not> IsNullable fk)"

definition depFk :: "string list \<Rightarrow> ForeignKey \<Rightarrow> bool" where
  "depFk neededTables fk =
     (hardFk fk \<and> FromTable fk \<in> set neededTables \<and> ToTable fk \<in> set neededTables)"

definition dequeue :: "bfs_state \<Rightarrow> string \<Rightarrow> string list \<Rightarrow> bfs_state" where
  \<comment> \<open>the state after lines 103 to 105\<close>
  "dequeue st c rest = st\<lparr>queue := rest, enqueued := (enqueued st)(c := False)\<rparr>"

definition cellValues :: "database \<Rightarrow> string \<Rightarrow> int set" where
  "cellValues db t = (case db t of None \<Rightarrow> {} | Some tb \<Rightarrow> {v. \<exists>r \<in> set (Rows tb). Some v \<in> set r})"

definition parentTables :: "(string \<rightharpoonup> FkEdge list) \<Rightarrow> string set" where
  "parentTables ctp = (\<Union>c \<in> dom ctp. ParentTable ` set (edgesOf ctp c))"

definition universe :: "database \<Rightarrow> (string \<rightharpoonup> FkEdge list) \<Rightarrow> (string \<times> int) set" where
  "universe db ctp = parentTables ctp \<times> (\<Union>c \<in> dom ctp. cellValues db c)"

definition missing :: "database \<Rightarrow> (string \<rightharpoonup> FkEdge list) \<Rightarrow> (string \<rightharpoonup> int set) \<Rightarrow> (string \<times> int) set" where
  "missing db ctp rs = universe db ctp - {(p, v). v \<in> idsOf rs p}"

text \<open>
  The parent ids that the row with id \<open>a\<close> of table \<open>t\<close> references through column
  \<open>col\<close>: the non-null values of \<open>col\<close> in the rows of \<open>t\<close> whose id is \<open>a\<close>.
\<close>

definition rowRefs :: "database \<Rightarrow> string \<Rightarrow> string \<Rightarrow> int \<Rightarrow> int set" where
  "rowRefs db t col a =
     (case db t of
        None \<Rightarrow> {}
      | Some tb \<Rightarrow>
          (case colIndex (Columns tb) col of
             None \<Rightarrow> {}
           | Some j \<Rightarrow>
               (case colIndex (Columns tb) ''id'' of
                  None \<Rightarrow> {}
                | Some i \<Rightarrow> {v. \<exists>r \<in> set (Rows tb). cellAt r i = Some a \<and> cellAt r j = Some v})))"

definition refsOf :: "database \<Rightarrow> string \<Rightarrow> string \<Rightarrow> int set \<Rightarrow> int set" where
  "refsOf db t col ids = (\<Union>a \<in> ids. rowRefs db t col a)"

definition bfsMeasure :: "database \<Rightarrow> (string \<rightharpoonup> FkEdge list) \<Rightarrow> bfs_state \<Rightarrow> nat \<times> nat" where
  "bfsMeasure db ctp st = (card (missing db ctp (rowSets st)), length (queue st))"

text \<open>
  The first \<open>k\<close> rounds of the loop of step 4, as a total function: the state after
  them, or the error that ended the run earlier.
\<close>

fun bfsRounds ::
  "database \<Rightarrow> (string \<rightharpoonup> FkEdge list) \<Rightarrow> nat \<Rightarrow> bfs_state \<Rightarrow> error + bfs_state" where
  "bfsRounds db ctp 0 st = Inr st"
| "bfsRounds db ctp (Suc k) st =
     (case queue st of
        [] \<Rightarrow> Inr st
      | c # rest \<Rightarrow>
          if idsOf (rowSets st) c = {} then bfsRounds db ctp k (dequeue st c rest)
          else case processEdges db c (edgesOf ctp c) (dequeue st c rest) of
                 Inl e \<Rightarrow> Inl e
               | Inr st2 \<Rightarrow> bfsRounds db ctp k st2)"

text \<open>
  The graph of the non-nullable relationships, child to parent; a non-nullable
  self-reference is a cycle of it.
\<close>

definition fkGraph :: "ForeignKey list \<Rightarrow> (string \<times> string) set" where
  "fkGraph allFks = {(c, p). \<exists>fk \<in> set allFks. \<not> IsNullable fk \<and> FromTable fk = c \<and> ToTable fk = p}"

text \<open>The seed rows: the ids that step 3 fetches for the requested tables.\<close>

definition seedIds :: "database \<Rightarrow> (string \<rightharpoonup> int) \<Rightarrow> string \<Rightarrow> int set" where
  "seedIds db requestedTables t =
     (case requestedTables t of
        None \<Rightarrow> {}
      | Some limit \<Rightarrow> (case fetchSomeIDs db t limit of Inl _ \<Rightarrow> {} | Inr ids \<Rightarrow> set ids))"

text \<open>
  The rows (table, id) reachable from the seed rows by following child-to-parent
  references along the relationships \<open>fks\<close>: a row of the child table whose column
  \<open>FromColumn fk\<close> holds \<open>v\<close> references the row \<open>v\<close> of the parent table. The
  specification follows the non-nullable relationships,
  \<open>filter (\<lambda>fk. \<not> IsNullable fk) allFks\<close>.
\<close>

inductive reachable ::
  "database \<Rightarrow> ForeignKey list \<Rightarrow> (string \<Rightarrow> int set) \<Rightarrow> string \<Rightarrow> int \<Rightarrow> bool"
  for db :: database and fks :: "ForeignKey list" and seeds :: "string \<Rightarrow> int set" where
  seed: "i \<in> seeds t \<Longrightarrow> reachable db fks seeds t i"
| ref: "reachable db fks seeds c a \<Longrightarrow> fk \<in> set fks \<Longrightarrow> FromTable fk = c \<Longrightarrow>
        v \<in> rowRefs db c (FromColumn fk) a \<Longrightarrow> reachable db fks seeds (ToTable fk) v"

code_pred reachable .

definition closedAt :: "database \<Rightarrow> (string \<rightharpoonup> FkEdge list) \<Rightarrow> (string \<rightharpoonup> int set) \<Rightarrow> string \<Rightarrow> bool" where
  "closedAt db ctp rs c =
     (\<forall>e \<in> set (edgesOf ctp c). refsOf db c (ChildColumn e) (idsOf rs c) \<subseteq> idsOf rs (ParentTable e))"

text \<open>
  The invariant of the loop of step 4, for a predicate \<open>R\<close> on rows that holds of the
  seeds \<open>S\<close> and is closed under references: the queue has no duplicates and is what
  \<^verbatim>\<open>enqueued\<close> marks, the seeds are in the row sets, every collected row satisfies
  \<open>R\<close>, and every table outside the queue has all its parent ids collected.
  \<open>edgeInv\<close> is the invariant of the inner loop for the dequeued table \<open>c\<close>, with
  \<open>D\<close> the edges already visited.
\<close>

definition bfsInv ::
  "database \<Rightarrow> (string \<rightharpoonup> FkEdge list) \<Rightarrow> (string \<Rightarrow> int \<Rightarrow> bool) \<Rightarrow> (string \<Rightarrow> int set) \<Rightarrow>
     bfs_state \<Rightarrow> bool" where
  "bfsInv db ctp R S st =
     (distinct (queue st) \<and> (\<forall>t. enqueued st t = (t \<in> set (queue st)))
      \<and> (\<forall>t. S t \<subseteq> idsOf (rowSets st) t)
      \<and> (\<forall>t i. i \<in> idsOf (rowSets st) t \<longrightarrow> R t i)
      \<and> (\<forall>t. t \<notin> set (queue st) \<longrightarrow> closedAt db ctp (rowSets st) t))"

definition edgeInv ::
  "database \<Rightarrow> (string \<rightharpoonup> FkEdge list) \<Rightarrow> (string \<Rightarrow> int \<Rightarrow> bool) \<Rightarrow> (string \<Rightarrow> int set) \<Rightarrow>
     string \<Rightarrow> FkEdge set \<Rightarrow> bfs_state \<Rightarrow> bool" where
  "edgeInv db ctp R S c D st =
     (distinct (queue st) \<and> (\<forall>t. enqueued st t = (t \<in> set (queue st)))
      \<and> c \<notin> set (queue st)
      \<and> (\<forall>t. S t \<subseteq> idsOf (rowSets st) t)
      \<and> (\<forall>t i. i \<in> idsOf (rowSets st) t \<longrightarrow> R t i)
      \<and> (\<forall>t. t \<noteq> c \<and> t \<notin> set (queue st) \<longrightarrow> closedAt db ctp (rowSets st) t)
      \<and> (\<forall>e \<in> D. refsOf db c (ChildColumn e) (idsOf (rowSets st) c)
                    \<subseteq> idsOf (rowSets st) (ParentTable e)))"

definition refClosed :: "database \<Rightarrow> (string \<rightharpoonup> FkEdge list) \<Rightarrow> (string \<Rightarrow> int \<Rightarrow> bool) \<Rightarrow> bool" where
  "refClosed db ctp R =
     (\<forall>c a e v. R c a \<and> e \<in> set (edgesOf ctp c) \<and> v \<in> rowRefs db c (ChildColumn e) a
        \<longrightarrow> R (ParentTable e) v)"

definition noSelfEdge :: "(string \<rightharpoonup> FkEdge list) \<Rightarrow> bool" where
  "noSelfEdge ctp = (\<forall>c e. e \<in> set (edgesOf ctp c) \<longrightarrow> ParentTable e \<noteq> c)"

text \<open>The position of the first occurrence of \<open>x\<close> in a list (its length when absent).\<close>

fun indexOf :: "'a list \<Rightarrow> 'a \<Rightarrow> nat" where
  "indexOf [] x = 0"
| "indexOf (y # ys) x = (if x = y then 0 else Suc (indexOf ys x))"

text \<open>
  The edges that \<^verbatim>\<open>partialTopoSort\<close> orders by: child to parent, for the relationships
  that are neither self-referencing nor nullable and have both tables needed.
\<close>

definition depGraph :: "ForeignKey list \<Rightarrow> string list \<Rightarrow> (string \<times> string) set" where
  "depGraph allFks neededTables =
     {(c, p). \<exists>fk \<in> set allFks. depFk neededTables fk \<and> FromTable fk = c \<and> ToTable fk = p}"

text \<open>No two such relationships join the same child table to the same parent table.\<close>

definition noParallel :: "ForeignKey list \<Rightarrow> string list \<Rightarrow> bool" where
  "noParallel allFks neededTables =
     distinct (map (\<lambda>fk. (FromTable fk, ToTable fk)) (filter (depFk neededTables) allFks))"

text \<open>
  The invariant of the main loop of \<^verbatim>\<open>partialTopoSort\<close>: sorted and queued tables are
  needed tables without repetition; the counter of a table is the length of its parent
  list minus the number of its distinct parents already sorted; the tables sorted or
  queued are those whose counter is 0; in \<^verbatim>\<open>sorted\<close> parents come first.
\<close>

definition kahnInv ::
  "(string \<rightharpoonup> string list) \<Rightarrow> (string \<rightharpoonup> int) \<Rightarrow> string list \<Rightarrow> string list \<Rightarrow> bool" where
  "kahnInv depMap inDegree qu srt =
     (distinct (srt @ qu) \<and> set (srt @ qu) \<subseteq> dom depMap
      \<and> (\<forall>c \<in> dom depMap. degOf inDegree c =
            int (length (parentsOf depMap c)) - int (card (set (parentsOf depMap c) \<inter> set srt)))
      \<and> (\<forall>c \<in> dom depMap. (c \<in> set (srt @ qu)) = (degOf inDegree c = 0))
      \<and> (\<forall>c \<in> set srt. \<forall>p \<in> set (parentsOf depMap c). indexOf srt p < indexOf srt c))"

text \<open>The iteration orders a Go run of \<^verbatim>\<open>partialTopoSort\<close> can take over its maps.\<close>

definition topoOrderOk :: "topo_order \<Rightarrow> ForeignKey list \<Rightarrow> string list \<Rightarrow> bool" where
  "topoOrderOk tords allFks neededTables =
     (rangeOrder (buildDepMap allFks neededTables) (ordInDeg tords)
      \<and> rangeOrder (calcInDegree (buildDepMap allFks neededTables) (initInDegree neededTables)
            (ordInDeg tords)) (ordZero tords)
      \<and> (\<forall>n. rangeOrder (buildDepMap allFks neededTables) (ordChild tords n)))"

section \<open>Example data\<close>

text \<open>The end-to-end example of the specification.\<close>

definition exFks :: "ForeignKey list" where
  "exFks =
     [\<lparr>FromTable = ''orders'', FromColumn = ''customer_id'', ToTable = ''customers'',
       ToColumn = ''id'', IsNullable = False\<rparr>,
      \<lparr>FromTable = ''order_items'', FromColumn = ''order_id'', ToTable = ''orders'',
       ToColumn = ''id'', IsNullable = False\<rparr>]"

definition exDB :: database where
  "exDB =
     [''customers'' \<mapsto> \<lparr>Columns = [''id''], Rows = [[Some 5]]\<rparr>,
      ''orders'' \<mapsto> \<lparr>Columns = [''id'', ''customer_id''],
                     Rows = [[Some 100, Some 5], [Some 101, Some 5]]\<rparr>,
      ''order_items'' \<mapsto> \<lparr>Columns = [''id'', ''order_id''],
                     Rows = [[Some 10, Some 100], [Some 11, Some 101]]\<rparr>]"

definition exReq :: "string \<rightharpoonup> int" where
  "exReq = [''order_items'' \<mapsto> 2]"

definition exOrd :: closure_order where
  "exOrd = \<lparr>ordInit = [''order_items''], ordSeed = [''order_items''], ordQueue = [''order_items'']\<rparr>"

definition exState :: bfs_state where
  "exState = projr (the (closure exOrd exDB exFks exReq))"

definition exReq2 :: "string \<rightharpoonup> int" where
  "exReq2 = [''order_items'' \<mapsto> 2, ''orders'' \<mapsto> 1]"

definition exOrdA :: closure_order where
  "exOrdA = \<lparr>ordInit = [''order_items'', ''orders''], ordSeed = [''order_items'', ''orders''],
             ordQueue = [''order_items'', ''orders'']\<rparr>"

definition exOrdB :: closure_order where
  "exOrdB = \<lparr>ordInit = [''orders'', ''order_items''], ordSeed = [''orders'', ''order_items''],
             ordQueue = [''orders'', ''order_items'']\<rparr>"

definition exStateA :: bfs_state where
  "exStateA = projr (the (closure exOrdA exDB exFks exReq2))"

definition exStateB :: bfs_state where
  "exStateB = projr (the (closure exOrdB exDB exFks exReq2))"

definition exNeeded :: "string list" where
  "exNeeded = [''orders'', ''order_items'', ''customers'']"

definition exTopo :: topo_order where
  "exTopo = \<lparr>ordInDeg = exNeeded, ordZero = exNeeded, ordChild = (\<lambda>_. exNeeded)\<rparr>"

definition exSorted :: "string list" where
  "exSorted = [''customers'', ''orders'', ''order_items'']"

definition fkOC :: ForeignKey where
  "fkOC = \<lparr>FromTable = ''orders'', FromColumn = ''customer_id'', ToTable = ''customers'',
            ToColumn = ''id'', IsNullable = False\<rparr>"

definition topoOf :: "string list \<Rightarrow> topo_order" where
  "topoOf ks = \<lparr>ordInDeg = ks, ordZero = ks, ordChild = (\<lambda>_. ks)\<rparr>"

text \<open>Two non-nullable relationships from the same child table to the same parent table.\<close>

definition dupFks :: "ForeignKey list" where
  "dupFks =
     [\<lparr>FromTable = ''orders'', FromColumn = ''billing_id'', ToTable = ''customers'',
       ToColumn = ''id'', IsNullable = False\<rparr>,
      \<lparr>FromTable = ''orders'', FromColumn = ''shipping_id'', ToTable = ''customers'',
       ToColumn = ''id'', IsNullable = False\<rparr>]"

definition exRank :: "string \<Rightarrow> nat" where
  "exRank t = (if t = ''customers'' then 0 else if t = ''orders'' then 1 else 2)"

text \<open>
  Two tables whose relationships name a child column \<open>parent_id\<close> that the source
  does not have.
\<close>

definition badDB :: database where
  "badDB =
     [''a'' \<mapsto> \<lparr>Columns = [''id''], Rows = [[Some 1]]\<rparr>,
      ''b'' \<mapsto> \<lparr>Columns = [''id''], Rows = [[Some 1]]\<rparr>,
      ''p'' \<mapsto> \<lparr>Columns = [''id''], Rows = [[Some 1]]\<rparr>,
      ''q'' \<mapsto> \<lparr>Columns = [''id''], Rows = [[Some 1]]\<rparr>]"

definition fkA :: ForeignKey where
  "fkA = \<lparr>FromTable = ''a'', FromColumn = ''parent_id'', ToTable = ''p'', ToColumn = ''id'',
           IsNullable = False\<rparr>"

definition fkB :: ForeignKey where
  "fkB = \<lparr>FromTable = ''b'', FromColumn = ''parent_id'', ToTable = ''q'', ToColumn = ''id'',
           IsNullable = False\<rparr>"

definition ordOf :: "string \<Rightarrow> closure_order" where
  "ordOf t = \<lparr>ordInit = [t], ordSeed = [t], ordQueue = [t]\<rparr>"

definition anyTopo :: topo_order where
  "anyTopo = \<lparr>ordInDeg = [], ordZero = [], ordChild = (\<lambda>_. [])\<rparr>"

section \<open>The dependency graph and the edge set of the sort\<close>

lemma edgesOf_upd: "edgesOf (m(k \<mapsto> es)) t = (if t = k then es else edgesOf m t)"
  by (simp add: edgesOf_def)

lemma edgesOf_addEdge:
  "edgesOf (addEdge m fk) c =
     edgesOf m c @ (if hardFk fk \<and> FromTable fk = c then [edgeOfFk fk] else [])"
  by (simp add: addEdge_def hardFk_def edgeOfFk_def edgesOf_upd)

lemma edgesOf_foldl_addEdge:
  "edgesOf (foldl addEdge m fks) c =
     edgesOf m c @ map edgeOfFk (filter (\<lambda>fk. hardFk fk \<and> FromTable fk = c) fks)"
  by (induction fks arbitrary: m) (simp_all add: edgesOf_addEdge)

lemma edgesOf_build:
  "edgesOf (buildChildToParents allFks) c =
     map edgeOfFk (filter (\<lambda>fk. hardFk fk \<and> FromTable fk = c) allFks)"
  by (simp add: buildChildToParents_def edgesOf_foldl_addEdge) (simp add: edgesOf_def)

lemma dom_addEdge: "dom (addEdge m fk) \<subseteq> insert (FromTable fk) (dom m)"
  by (auto simp: addEdge_def split: if_splits)

lemma dom_foldl_addEdge: "dom (foldl addEdge m fks) \<subseteq> dom m \<union> FromTable ` set fks"
proof (induction fks arbitrary: m)
  case Nil
  then show ?case by simp
next
  case (Cons fk fks)
  have "dom (foldl addEdge (addEdge m fk) fks) \<subseteq> dom (addEdge m fk) \<union> FromTable ` set fks"
    by (rule Cons.IH)
  then have "dom (foldl addEdge (addEdge m fk) fks) \<subseteq> insert (FromTable fk) (dom m) \<union> FromTable ` set fks"
    using dom_addEdge [of m fk] by blast
  then show ?case by auto
qed

lemma finite_dom_build: "finite (dom (buildChildToParents allFks))"
proof -
  have "dom (buildChildToParents allFks) \<subseteq> FromTable ` set allFks"
    using dom_foldl_addEdge [of Map.empty allFks] by (simp add: buildChildToParents_def)
  then show ?thesis by (rule finite_subset) simp
qed

lemma buildNeededSet_foldl:
  "foldl (\<lambda>s t. s(t := True)) s0 ts x = (x \<in> set ts \<or> s0 x)"
  by (induction ts arbitrary: s0) auto

lemma buildNeededSet_iff: "buildNeededSet neededTables t = (t \<in> set neededTables)"
  by (simp add: buildNeededSet_def buildNeededSet_foldl)

lemma parentsOf_upd: "parentsOf (m(k \<mapsto> ps)) t = (if t = k then ps else parentsOf m t)"
  by (simp add: parentsOf_def)

lemma parentsOf_addDep:
  "parentsOf (addDep (buildNeededSet ts) m fk) c =
     parentsOf m c @ (if depFk ts fk \<and> FromTable fk = c then [ToTable fk] else [])"
  by (auto simp: addDep_def depFk_def hardFk_def parentsOf_upd buildNeededSet_iff)

lemma parentsOf_foldl_addDep:
  "parentsOf (foldl (addDep (buildNeededSet ts)) m fks) c =
     parentsOf m c @ map ToTable (filter (\<lambda>fk. depFk ts fk \<and> FromTable fk = c) fks)"
  by (induction fks arbitrary: m) (simp_all add: parentsOf_addDep)

lemma initDepMap_foldl:
  "foldl (\<lambda>m t. m(t \<mapsto> [])) m0 ts x = (if x \<in> set ts then Some [] else m0 x)"
  by (induction ts arbitrary: m0) auto

lemma initDepMap_apply: "initDepMap ts x = (if x \<in> set ts then Some [] else None)"
  by (simp add: initDepMap_def initDepMap_foldl)

lemma parentsOf_build:
  "parentsOf (buildDepMap allFks ts) c =
     map ToTable (filter (\<lambda>fk. depFk ts fk \<and> FromTable fk = c) allFks)"
  by (simp add: buildDepMap_def parentsOf_foldl_addDep) (simp add: parentsOf_def initDepMap_apply)

lemma dom_addDep:
  "dom (addDep (buildNeededSet ts) m fk) \<subseteq> dom m \<union> set ts" "dom m \<subseteq> dom (addDep (buildNeededSet ts) m fk)"
  by (auto simp: addDep_def buildNeededSet_iff split: if_splits)

lemma dom_foldl_addDep:
  "set ts \<subseteq> dom m \<Longrightarrow> dom (foldl (addDep (buildNeededSet ts)) m fks) = dom m"
proof (induction fks arbitrary: m)
  case Nil
  then show ?case by simp
next
  case (Cons fk fks)
  have eq: "dom (addDep (buildNeededSet ts) m fk) = dom m"
    using dom_addDep [where ts = ts and m = m and fk = fk] Cons.prems by blast
  show ?case using Cons.IH [of "addDep (buildNeededSet ts) m fk"] Cons.prems eq by simp
qed

lemma dom_buildDepMap: "dom (buildDepMap allFks ts) = set ts"
proof -
  have d: "dom (initDepMap ts) = set ts"
    by (auto simp: dom_def initDepMap_apply)
  show ?thesis unfolding buildDepMap_def using dom_foldl_addDep [of ts "initDepMap ts" allFks] d by simp
qed

section \<open>Row sets: initialisation, seeding, the loop rule\<close>

lemma fst_rangeEntries: "map fst (rangeEntries m ks) = filter (\<lambda>k. k \<in> dom m) ks"
  by (induction ks) (auto simp: rangeEntries_def List.map_filter_def)

lemma set_rangeEntries: "set (rangeEntries m ks) = {(k, v). k \<in> set ks \<and> m k = Some v}"
  by (induction ks) (auto simp: rangeEntries_def List.map_filter_def)

lemma keys_rangeEntries: "fst ` set (rangeEntries m ks) = set ks \<inter> dom m"
proof -
  have "fst ` set (rangeEntries m ks) = set (map fst (rangeEntries m ks))" by simp
  also have "\<dots> = set ks \<inter> dom m" unfolding fst_rangeEntries by auto
  finally show ?thesis .
qed

lemma rangeEntries_keys: "rangeOrder m ks \<Longrightarrow> set (map fst (rangeEntries m ks)) = dom m"
  by (auto simp: fst_rangeEntries rangeOrder_def)

lemma dom_ensureSet: "dom (ensureSet rs t) = insert t (dom rs)"
  by (auto simp: ensureSet_def split: option.splits)

lemma dom_foldl_ensure_fks:
  "dom (foldl (\<lambda>rs fk. ensureSet (ensureSet rs (FromTable fk)) (ToTable fk)) rs0 fks) =
     dom rs0 \<union> FromTable ` set fks \<union> ToTable ` set fks"
  by (induction fks arbitrary: rs0) (auto simp: dom_ensureSet)

lemma dom_foldl_ensure_req:
  "dom (foldl (\<lambda>rs (tbl, _). ensureSet rs tbl) rs0 es) = dom rs0 \<union> fst ` set es"
  by (induction es arbitrary: rs0) (simp_all add: case_prod_beta dom_ensureSet)

lemma dom_initRowSets:
  "dom (initRowSets allFks req ord) =
     FromTable ` set allFks \<union> ToTable ` set allFks \<union> (set ord \<inter> dom req)"
  unfolding initRowSets_def dom_foldl_ensure_req dom_foldl_ensure_fks keys_rangeEntries
  by simp

lemma ensureSet_empty: "(\<forall>t s. rs t = Some s \<longrightarrow> s = {}) \<Longrightarrow> ensureSet rs u t = Some s \<Longrightarrow> s = {}"
  by (auto simp: ensureSet_def split: option.splits if_splits)

lemma foldl_ensure_fks_empty:
  "(\<forall>t s. rs0 t = Some s \<longrightarrow> s = {}) \<Longrightarrow>
   foldl (\<lambda>rs fk. ensureSet (ensureSet rs (FromTable fk)) (ToTable fk)) rs0 fks t = Some s \<Longrightarrow> s = {}"
proof (induction fks arbitrary: rs0)
  case Nil
  then show ?case by simp
next
  case (Cons fk fks)
  have "\<forall>t s. ensureSet (ensureSet rs0 (FromTable fk)) (ToTable fk) t = Some s \<longrightarrow> s = {}"
    using Cons.prems(1) by (meson ensureSet_empty)
  then show ?case using Cons.IH Cons.prems(2) by simp
qed

lemma foldl_ensure_req_empty:
  "(\<forall>t s. rs0 t = Some s \<longrightarrow> s = {}) \<Longrightarrow>
   foldl (\<lambda>rs (tbl, _). ensureSet rs tbl) rs0 es t = Some s \<Longrightarrow> s = {}"
proof (induction es arbitrary: rs0)
  case Nil
  then show ?case by simp
next
  case (Cons e es)
  have "\<forall>t s. ensureSet rs0 (fst e) t = Some s \<longrightarrow> s = {}"
    using Cons.prems(1) by (meson ensureSet_empty)
  then show ?case using Cons.IH [of "ensureSet rs0 (fst e)"] Cons.prems(2)
    by (simp add: case_prod_beta)
qed

lemma idsOf_initRowSets: "idsOf (initRowSets allFks req ord) t = {}"
proof (cases "initRowSets allFks req ord t")
  case None
  then show ?thesis by (simp add: idsOf_def)
next
  case (Some s)
  have "\<forall>t s. foldl (\<lambda>rs fk. ensureSet (ensureSet rs (FromTable fk)) (ToTable fk)) Map.empty allFks t = Some s \<longrightarrow> s = {}"
    using foldl_ensure_fks_empty [of Map.empty] by blast
  then have "s = {}"
    using foldl_ensure_req_empty Some unfolding initRowSets_def by blast
  with Some show ?thesis by (simp add: idsOf_def)
qed

lemma insertIDs_Inr:
  "insertIDs rs t ids = Inr rs' \<Longrightarrow>
     dom rs' = dom rs \<and> idsOf rs' t = idsOf rs t \<union> ids \<and> (\<forall>u. u \<noteq> t \<longrightarrow> rs' u = rs u)"
  by (auto simp: insertIDs_def idsOf_def split: option.splits if_splits)

lemma insertIDs_idsOf:
  "insertIDs rs t ids = Inr rs' \<Longrightarrow> idsOf rs' u = (if u = t then idsOf rs t \<union> ids else idsOf rs u)"
  by (auto simp: insertIDs_def idsOf_def split: option.splits if_splits)

lemma insertIDs_Inl: "insertIDs rs t ids = Inl e \<Longrightarrow> e = NilMapPanic \<and> rs t = None \<and> ids \<noteq> {}"
  by (auto simp: insertIDs_def split: option.splits if_splits)

lemma insertIDs_dom: "t \<in> dom rs \<Longrightarrow> \<exists>rs'. insertIDs rs t ids = Inr rs'"
  by (auto simp: insertIDs_def split: option.splits)

lemma seedRowSets_dom:
  "seedRowSets db rs es = Inr rs' \<Longrightarrow> dom rs' = dom rs"
proof (induction es arbitrary: rs)
  case Nil
  then show ?case by simp
next
  case (Cons e es)
  obtain t limit where e: "e = (t, limit)" by (cases e)
  from Cons.prems obtain ids rs1 where
    "insertIDs rs t (set ids) = Inr rs1" "seedRowSets db rs1 es = Inr rs'"
    by (auto simp: e split: sum.splits)
  then show ?case using Cons.IH insertIDs_Inr by metis
qed

lemma seedRowSets_no_panic:
  "fst ` set es \<subseteq> dom rs \<Longrightarrow> seedRowSets db rs es \<noteq> Inl NilMapPanic"
proof (induction es arbitrary: rs)
  case Nil
  then show ?case by simp
next
  case (Cons e es)
  obtain t limit where e: "e = (t, limit)" by (cases e)
  show ?case
  proof (cases "fetchSomeIDs db t limit")
    case (Inl a)
    then show ?thesis by (simp add: e)
  next
    case (Inr ids)
    from Cons.prems e have "t \<in> dom rs" by simp
    then obtain rs1 where i: "insertIDs rs t (set ids) = Inr rs1"
      using insertIDs_dom by blast
    then have "dom rs1 = dom rs" using insertIDs_Inr by blast
    then have "seedRowSets db rs1 es \<noteq> Inl NilMapPanic"
      using Cons.IH [of rs1] Cons.prems by simp
    then show ?thesis using Inr i by (simp add: e)
  qed
qed

lemma visitEdge_Inr:
  assumes "visitEdge db c e st = Inr st'"
  obtains new rs' where
    "fetchReferencedParentIDs db c e (idsOf (rowSets st) c) = Inr new"
    "insertIDs (rowSets st) (ParentTable e) new = Inr rs'"
    "st' = (if \<not> new \<subseteq> idsOf (rowSets st) (ParentTable e) \<and> \<not> enqueued st (ParentTable e)
            then st\<lparr>rowSets := rs', queue := queue st @ [ParentTable e],
                    enqueued := (enqueued st)(ParentTable e := True),
                    enqueues := Suc (enqueues st)\<rparr>
            else st\<lparr>rowSets := rs'\<rparr>)"
  using assms unfolding visitEdge_def Let_def
  by (cases "fetchReferencedParentIDs db c e (idsOf (rowSets st) c)";
      cases "insertIDs (rowSets st) (ParentTable e) (projr (fetchReferencedParentIDs db c e (idsOf (rowSets st) c)))")
     auto

lemma visitEdge_rowSets:
  assumes "visitEdge db c e st = Inr st'"
  obtains new where
    "fetchReferencedParentIDs db c e (idsOf (rowSets st) c) = Inr new"
    "insertIDs (rowSets st) (ParentTable e) new = Inr (rowSets st')"
proof -
  from assms obtain new rs' where
    f: "fetchReferencedParentIDs db c e (idsOf (rowSets st) c) = Inr new"
    and i: "insertIDs (rowSets st) (ParentTable e) new = Inr rs'"
    and s: "st' = (if \<not> new \<subseteq> idsOf (rowSets st) (ParentTable e) \<and> \<not> enqueued st (ParentTable e)
            then st\<lparr>rowSets := rs', queue := queue st @ [ParentTable e],
                    enqueued := (enqueued st)(ParentTable e := True),
                    enqueues := Suc (enqueues st)\<rparr>
            else st\<lparr>rowSets := rs'\<rparr>)"
    by (rule visitEdge_Inr)
  from s have "rowSets st' = rs'" by (simp split: if_splits)
  with f i that show ?thesis by simp
qed

lemma visitEdge_dom:
  "visitEdge db c e st = Inr st' \<Longrightarrow> dom (rowSets st') = dom (rowSets st)"
  by (erule visitEdge_rowSets) (simp add: insertIDs_Inr)

lemma visitEdge_no_panic:
  "ParentTable e \<in> dom (rowSets st) \<Longrightarrow> visitEdge db c e st \<noteq> Inl NilMapPanic"
  by (auto simp: visitEdge_def Let_def split: sum.splits dest: insertIDs_Inl)

lemma processEdges_dom:
  "processEdges db c es st = Inr st' \<Longrightarrow> dom (rowSets st') = dom (rowSets st)"
proof (induction es arbitrary: st)
  case Nil
  then show ?case by simp
next
  case (Cons e es)
  from Cons.prems obtain st1 where
    v: "visitEdge db c e st = Inr st1" and p: "processEdges db c es st1 = Inr st'"
    by (auto split: sum.splits)
  from Cons.IH [OF p] visitEdge_dom [OF v] show ?case by simp
qed

lemma processEdges_no_panic:
  "ParentTable ` set es \<subseteq> dom (rowSets st) \<Longrightarrow> processEdges db c es st \<noteq> Inl NilMapPanic"
proof (induction es arbitrary: st)
  case Nil
  then show ?case by simp
next
  case (Cons e es)
  show ?case
  proof (cases "visitEdge db c e st")
    case (Inl a)
    then show ?thesis using visitEdge_no_panic [of e st db c] Cons.prems by auto
  next
    case (Inr st1)
    then show ?thesis using visitEdge_dom [OF Inr] Cons.IH [of st1] Cons.prems by simp
  qed
qed

lemma bfsLoop_rule:
  assumes run: "bfsLoop db ctp st = Some r"
    and init: "I st"
    and skip: "\<And>st c rest. I st \<Longrightarrow> queue st = c # rest \<Longrightarrow> idsOf (rowSets st) c = {} \<Longrightarrow>
                 I (dequeue st c rest)"
    and step: "\<And>st c rest st2. I st \<Longrightarrow> queue st = c # rest \<Longrightarrow> idsOf (rowSets st) c \<noteq> {} \<Longrightarrow>
                 processEdges db c (edgesOf ctp c) (dequeue st c rest) = Inr st2 \<Longrightarrow> I st2"
    and fail: "\<And>st c rest e. I st \<Longrightarrow> queue st = c # rest \<Longrightarrow> idsOf (rowSets st) c \<noteq> {} \<Longrightarrow>
                 processEdges db c (edgesOf ctp c) (dequeue st c rest) = Inl e \<Longrightarrow> Q (Inl e)"
    and final: "\<And>st. I st \<Longrightarrow> queue st = [] \<Longrightarrow> Q (Inr st)"
  shows "Q r"
proof -
  let ?P = "\<lambda>(d::database) (m::string \<rightharpoonup> FkEdge list) s y. d = db \<and> m = ctp \<and> I s \<longrightarrow> Q y"
  have "?P db ctp st r"
  proof (rule bfsLoop.raw_induct [where P = ?P, OF _ run])
    fix bfs :: "database \<Rightarrow> (string \<rightharpoonup> FkEdge list) \<Rightarrow> bfs_state \<Rightarrow> (error + bfs_state) option"
    fix d m s y
    assume IH: "\<And>d m s y. bfs d m s = Some y \<Longrightarrow> ?P d m s y"
    assume body: "(case queue s of [] \<Rightarrow> Some (Inr s)
      | childTable # rest \<Rightarrow>
          let st1 = s\<lparr>queue := rest, enqueued := (enqueued s)(childTable := False)\<rparr>
          in if idsOf (rowSets st1) childTable = {} then bfs d m st1
             else case processEdges d childTable (edgesOf m childTable) st1 of
                  Inl e \<Rightarrow> Some (Inl e)
                  | Inr st2 \<Rightarrow> bfs d m st2) = Some y"
    show "?P d m s y"
    proof (intro impI, elim conjE)
      assume eq: "d = db" "m = ctp" and inv: "I s"
      show "Q y"
      proof (cases "queue s")
        case Nil
        with body have "y = Inr s" by simp
        with final [OF inv Nil] show ?thesis by simp
      next
        case (Cons c rest)
        have ids: "idsOf (rowSets (dequeue s c rest)) c = idsOf (rowSets s) c"
          by (simp add: dequeue_def)
        show ?thesis
        proof (cases "idsOf (rowSets s) c = {}")
          case True
          with body Cons have "bfs d m (dequeue s c rest) = Some y"
            by (simp add: dequeue_def)
          from IH [OF this] eq skip [OF inv Cons True] show ?thesis by simp
        next
          case False
          show ?thesis
          proof (cases "processEdges db c (edgesOf ctp c) (dequeue s c rest)")
            case (Inl e)
            with body Cons False eq have "y = Inl e" by (simp add: dequeue_def)
            with fail [OF inv Cons False Inl] show ?thesis by simp
          next
            case (Inr st2)
            with body Cons False eq have "bfs d m st2 = Some y" by (simp add: dequeue_def)
            from IH [OF this] eq step [OF inv Cons False Inr] show ?thesis by simp
          qed
        qed
      qed
    qed
  qed
  with init show ?thesis by simp
qed

lemma bfsLoop_no_panic:
  assumes run: "bfsLoop db ctp st = Some r"
    and par: "\<forall>c e. e \<in> set (edgesOf ctp c) \<longrightarrow> ParentTable e \<in> dom (rowSets st)"
  shows "r \<noteq> Inl NilMapPanic \<and> (\<forall>st'. r = Inr st' \<longrightarrow> dom (rowSets st') = dom (rowSets st))"
proof (rule bfsLoop_rule [OF run, where I = "\<lambda>s. dom (rowSets s) = dom (rowSets st)"])
  show "dom (rowSets st) = dom (rowSets st)" ..
next
  fix s :: bfs_state and c rest
  assume "dom (rowSets s) = dom (rowSets st)"
  then show "dom (rowSets (dequeue s c rest)) = dom (rowSets st)" by (simp add: dequeue_def)
next
  fix s :: bfs_state and c rest st2
  assume "dom (rowSets s) = dom (rowSets st)"
    and "processEdges db c (edgesOf ctp c) (dequeue s c rest) = Inr st2"
  then show "dom (rowSets st2) = dom (rowSets st)"
    using processEdges_dom [of db c "edgesOf ctp c" "dequeue s c rest" st2] by (simp add: dequeue_def)
next
  fix s :: bfs_state and c rest e
  assume d: "dom (rowSets s) = dom (rowSets st)"
    and p: "processEdges db c (edgesOf ctp c) (dequeue s c rest) = Inl e"
  have "processEdges db c (edgesOf ctp c) (dequeue s c rest) \<noteq> Inl NilMapPanic"
    using processEdges_no_panic [of "edgesOf ctp c" "dequeue s c rest" db c] par d
    by (auto simp: dequeue_def)
  with p show "Inl e \<noteq> Inl NilMapPanic \<and> (\<forall>st'. Inl e = Inr st' \<longrightarrow> dom (rowSets st') = dom (rowSets st))"
    by auto
next
  fix s :: bfs_state
  assume "dom (rowSets s) = dom (rowSets st)"
  then show "Inr s \<noteq> Inl NilMapPanic \<and> (\<forall>st'. Inr s = Inr st' \<longrightarrow> dom (rowSets st') = dom (rowSets st))"
    by auto
qed

lemma edges_parent_in_fks:
  "e \<in> set (edgesOf (buildChildToParents allFks) c) \<Longrightarrow> ParentTable e \<in> ToTable ` set allFks \<and> ParentTable e \<noteq> c"
  by (auto simp: edgesOf_build edgeOfFk_def hardFk_def)

lemma closure_no_panic:
  assumes "rangeOrder req (ordInit cords)"
  shows "closure cords db allFks req \<noteq> Some (Inl NilMapPanic)"
proof -
  let ?rs0 = "initRowSets allFks req (ordInit cords)"
  have d0: "dom ?rs0 = FromTable ` set allFks \<union> ToTable ` set allFks \<union> dom req"
    using assms by (auto simp: dom_initRowSets rangeOrder_def)
  have keys: "fst ` set (rangeEntries req (ordSeed cords)) \<subseteq> dom ?rs0"
    unfolding d0 by (auto simp: set_rangeEntries)
  show ?thesis
  proof (cases "seedRowSets db ?rs0 (rangeEntries req (ordSeed cords))")
    case (Inl e)
    then show ?thesis using seedRowSets_no_panic [OF keys, of db] by (auto simp: closure_def)
  next
    case (Inr rs)
    have d: "dom rs = dom ?rs0" using seedRowSets_dom [OF Inr] .
    have "\<forall>c e. e \<in> set (edgesOf (buildChildToParents allFks) c) \<longrightarrow>
            ParentTable e \<in> dom (rowSets (initialState req (ordQueue cords) rs))"
      using edges_parent_in_fks d d0 by (auto simp: initialState_def)
    then show ?thesis using bfsLoop_no_panic Inr by (fastforce simp: closure_def)
  qed
qed

section \<open>The queries\<close>

lemma finite_cellValues: "finite (cellValues db t)"
proof (cases "db t")
  case None
  then show ?thesis by (simp add: cellValues_def)
next
  case (Some tb)
  have "{v. \<exists>r \<in> set (Rows tb). Some v \<in> set r} \<subseteq> the ` (\<Union>r \<in> set (Rows tb). set r)"
    by force
  moreover have "finite (the ` (\<Union>r \<in> set (Rows tb). set r))" by simp
  ultimately have "finite {v. \<exists>r \<in> set (Rows tb). Some v \<in> set r}" by (rule finite_subset)
  with Some show ?thesis by (simp add: cellValues_def)
qed

lemma finite_universe: "finite (dom ctp) \<Longrightarrow> finite (universe db ctp)"
  by (simp add: universe_def parentTables_def finite_cellValues)

lemma finite_missing: "finite (dom ctp) \<Longrightarrow> finite (missing db ctp rs)"
  by (simp add: missing_def finite_universe)

lemma edgesOf_dom: "e \<in> set (edgesOf ctp c) \<Longrightarrow> c \<in> dom ctp"
  by (cases "ctp c") (auto simp: edgesOf_def)

lemma scanAll_Inr: "scanAll cs = Inr vs \<Longrightarrow> cs = map Some vs"
proof (induction cs arbitrary: vs)
  case Nil
  then show ?case by simp
next
  case (Cons c cs)
  then show ?case by (cases c) (auto split: sum.splits)
qed

lemma scanAll_Some: "scanAll (map Some vs) = Inr vs"
  by (induction vs) simp_all

lemma scanAll_no_null: "None \<notin> set cs \<Longrightarrow> scanAll cs = Inr (map the cs)"
proof (induction cs)
  case Nil
  then show ?case by simp
next
  case (Cons c cs)
  then show ?case by (cases c) auto
qed

lemma idIn_iff: "idIn r i ids = (\<exists>a \<in> ids. cellAt r i = Some a)"
  by (auto simp: idIn_def split: option.splits)

lemma fetchRefs_Inr:
  assumes "fetchReferencedParentIDs db c e ids = Inr new"
  shows "new = refsOf db c (ChildColumn e) ids"
proof (cases "ids = {}")
  case True
  then show ?thesis using assms
    by (auto simp: fetchReferencedParentIDs_def refsOf_def)
next
  case False
  from assms False obtain cs vs where
    sel: "selectDistinct db (ChildColumn e) c ids = Inr cs" and sc: "scanAll cs = Inr vs"
    and new: "new = set vs"
    by (auto simp: fetchReferencedParentIDs_def split: sum.splits)
  from sel obtain tb j i where tb: "db c = Some tb"
    and j: "colIndex (Columns tb) (ChildColumn e) = Some j"
    and i: "colIndex (Columns tb) ''id'' = Some i"
    and cs: "cs = remdups (map (\<lambda>r. cellAt r j) (filter (\<lambda>r. idIn r i ids \<and> cellAt r j \<noteq> None) (Rows tb)))"
    by (auto simp: selectDistinct_def split: option.splits)
  have "Some ` set vs = set cs" using scanAll_Inr [OF sc] by simp
  then have "set vs = {v. Some v \<in> set cs}" by auto
  also have "\<dots> = {v. \<exists>r \<in> set (Rows tb). idIn r i ids \<and> cellAt r j = Some v}"
    unfolding cs by force
  also have "\<dots> = (\<Union>a \<in> ids. {v. \<exists>r \<in> set (Rows tb). cellAt r i = Some a \<and> cellAt r j = Some v})"
    unfolding idIn_iff by blast
  finally show ?thesis using new tb j i by (simp add: refsOf_def rowRefs_def)
qed

lemma cellAt_Some: "cellAt r j = Some v \<Longrightarrow> Some v \<in> set r"
  by (metis cellAt_def nth_mem option.distinct(1))

lemma rowRefs_cellValues: "rowRefs db t col a \<subseteq> cellValues db t"
  by (auto simp: rowRefs_def cellValues_def split: option.splits dest: cellAt_Some)

lemma refsOf_cellValues: "refsOf db t col ids \<subseteq> cellValues db t"
  using rowRefs_cellValues by (fastforce simp: refsOf_def)

lemma refsOf_mono: "A \<subseteq> B \<Longrightarrow> refsOf db t col A \<subseteq> refsOf db t col B"
  by (auto simp: refsOf_def)

section \<open>Termination of the closure loop\<close>

lemma visitEdge_missing:
  assumes v: "visitEdge db c e st = Inr st'" and e: "e \<in> set (edgesOf ctp c)"
  shows "(queue st' = queue st \<and> missing db ctp (rowSets st') \<subseteq> missing db ctp (rowSets st))
       \<or> missing db ctp (rowSets st') \<subset> missing db ctp (rowSets st)"
proof -
  let ?p = "ParentTable e"
  from v obtain new rs' where
    f: "fetchReferencedParentIDs db c e (idsOf (rowSets st) c) = Inr new"
    and i: "insertIDs (rowSets st) ?p new = Inr rs'"
    and s: "st' = (if \<not> new \<subseteq> idsOf (rowSets st) ?p \<and> \<not> enqueued st ?p
            then st\<lparr>rowSets := rs', queue := queue st @ [?p],
                    enqueued := (enqueued st)(?p := True),
                    enqueues := Suc (enqueues st)\<rparr>
            else st\<lparr>rowSets := rs'\<rparr>)"
    by (rule visitEdge_Inr)
  have rs: "rowSets st' = rs'" using s by (simp split: if_splits)
  have ids: "\<And>u. idsOf rs' u = (if u = ?p then idsOf (rowSets st) ?p \<union> new else idsOf (rowSets st) u)"
    using insertIDs_idsOf [OF i] by simp
  have sub: "missing db ctp rs' \<subseteq> missing db ctp (rowSets st)"
    unfolding missing_def using ids by (auto split: if_splits)
  show ?thesis
  proof (cases "new \<subseteq> idsOf (rowSets st) ?p")
    case True
    with s have "queue st' = queue st" by simp
    with sub rs show ?thesis by simp
  next
    case False
    then obtain v where vn: "v \<in> new" and vo: "v \<notin> idsOf (rowSets st) ?p" by blast
    have "new \<subseteq> cellValues db c"
      using fetchRefs_Inr [OF f] refsOf_cellValues by simp
    with vn have "v \<in> cellValues db c" by blast
    moreover have "c \<in> dom ctp" using e by (rule edgesOf_dom)
    moreover have "?p \<in> parentTables ctp" using e \<open>c \<in> dom ctp\<close>
      by (auto simp: parentTables_def)
    ultimately have u: "(?p, v) \<in> universe db ctp" by (auto simp: universe_def)
    have "(?p, v) \<in> missing db ctp (rowSets st)" using u vo by (simp add: missing_def)
    moreover have "(?p, v) \<notin> missing db ctp rs'" using vn ids by (simp add: missing_def)
    ultimately have "missing db ctp rs' \<subset> missing db ctp (rowSets st)" using sub by blast
    with rs show ?thesis by simp
  qed
qed

lemma processEdges_missing:
  assumes "processEdges db c es st = Inr st'" and "set es \<subseteq> set (edgesOf ctp c)"
  shows "(queue st' = queue st \<and> missing db ctp (rowSets st') \<subseteq> missing db ctp (rowSets st))
       \<or> missing db ctp (rowSets st') \<subset> missing db ctp (rowSets st)"
  using assms
proof (induction es arbitrary: st)
  case Nil
  then show ?case by simp
next
  case (Cons e es)
  from Cons.prems(1) obtain st1 where
    v: "visitEdge db c e st = Inr st1" and p: "processEdges db c es st1 = Inr st'"
    by (auto split: sum.splits)
  have e: "e \<in> set (edgesOf ctp c)" using Cons.prems(2) by simp
  from visitEdge_missing [OF v e] Cons.IH [OF p] Cons.prems(2) show ?case by auto
qed

lemma bfsLoop_unfold_Cons:
  "queue st = c # rest \<Longrightarrow>
   bfsLoop db ctp st =
     (if idsOf (rowSets st) c = {} then bfsLoop db ctp (dequeue st c rest)
      else case processEdges db c (edgesOf ctp c) (dequeue st c rest) of
             Inl e \<Rightarrow> Some (Inl e)
           | Inr st2 \<Rightarrow> bfsLoop db ctp st2)"
  by (subst bfsLoop.simps) (simp add: dequeue_def)

lemma bfsLoop_unfold_Nil: "queue st = [] \<Longrightarrow> bfsLoop db ctp st = Some (Inr st)"
  by (subst bfsLoop.simps) simp

lemma bfsLoop_terminates:
  assumes fin: "finite (dom ctp)"
  shows "\<exists>r. bfsLoop db ctp st = Some r"
proof -
  have wf: "wf (inv_image (less_than <*lex*> less_than) (bfsMeasure db ctp))"
    by (intro wf_inv_image wf_lex_prod wf_less_than)
  show ?thesis
  proof (induction st rule: wf_induct_rule [OF wf])
    case (1 st)
    show ?case
    proof (cases "queue st")
      case Nil
      then show ?thesis by (simp add: bfsLoop_unfold_Nil)
    next
      case (Cons c rest)
      let ?st1 = "dequeue st c rest"
      have m1: "missing db ctp (rowSets ?st1) = missing db ctp (rowSets st)"
        and q1: "length (queue ?st1) < length (queue st)"
        using Cons by (simp_all add: dequeue_def)
      show ?thesis
      proof (cases "idsOf (rowSets st) c = {}")
        case True
        have "(?st1, st) \<in> inv_image (less_than <*lex*> less_than) (bfsMeasure db ctp)"
          using m1 q1 by (simp add: bfsMeasure_def)
        from 1 [OF this] True Cons show ?thesis by (simp add: bfsLoop_unfold_Cons)
      next
        case False
        show ?thesis
        proof (cases "processEdges db c (edgesOf ctp c) ?st1")
          case (Inl e)
          with False Cons show ?thesis by (simp add: bfsLoop_unfold_Cons)
        next
          case (Inr st2)
          from processEdges_missing [OF Inr subset_refl]
          have "(st2, st) \<in> inv_image (less_than <*lex*> less_than) (bfsMeasure db ctp)"
          proof
            assume "queue st2 = queue ?st1 \<and> missing db ctp (rowSets st2) \<subseteq> missing db ctp (rowSets ?st1)"
            then have "length (queue st2) < length (queue st)"
              and "card (missing db ctp (rowSets st2)) \<le> card (missing db ctp (rowSets st))"
              using q1 m1 card_mono [OF finite_missing [OF fin]] by auto
            then show ?thesis by (auto simp: bfsMeasure_def)
          next
            assume "missing db ctp (rowSets st2) \<subset> missing db ctp (rowSets ?st1)"
            then have "card (missing db ctp (rowSets st2)) < card (missing db ctp (rowSets st))"
              using m1 psubset_card_mono [OF finite_missing [OF fin]] by auto
            then show ?thesis by (simp add: bfsMeasure_def)
          qed
          from 1 [OF this] Inr False Cons show ?thesis by (simp add: bfsLoop_unfold_Cons)
        qed
      qed
    qed
  qed
qed

lemma closure_terminates: "\<exists>r. closure cords db allFks req = Some r"
  using bfsLoop_terminates [OF finite_dom_build]
  by (auto simp: closure_def split: sum.splits)

section \<open>Rounds of the loop and early exits\<close>

lemma bfsLoop_rounds:
  "bfsLoop db ctp st =
     (case bfsRounds db ctp k st of Inl e \<Rightarrow> Some (Inl e) | Inr st' \<Rightarrow> bfsLoop db ctp st')"
proof (induction k arbitrary: st)
  case 0
  show ?case by simp
next
  case (Suc k)
  show ?case
  proof (cases "queue st")
    case Nil
    then show ?thesis by simp
  next
    case (Cons c rest)
    then show ?thesis
      by (simp add: bfsLoop_unfold_Cons [OF Cons] Suc.IH split: sum.splits)
  qed
qed

lemma processEdges_append:
  "processEdges db c (es1 @ es2) st =
     (case processEdges db c es1 st of Inl e \<Rightarrow> Inl e | Inr st' \<Rightarrow> processEdges db c es2 st')"
  by (induction es1 arbitrary: st) (auto split: sum.splits)

lemma visitEdge_fetch_fails:
  "fetchReferencedParentIDs db c e (idsOf (rowSets st) c) = Inl err \<Longrightarrow>
     visitEdge db c e st = Inl (FetchReferencedParentIDsError err)"
  by (simp add: visitEdge_def)

lemma sync_closure_error:
  "closure cords prodDB allFks req = Some (Inl err) \<Longrightarrow>
   SyncPartialData cords ordNeed tords prodDB devDB allFks req reset = Some (Some err, devDB)"
  by (simp add: SyncPartialData_def)

lemmas eval_defs = closure_def initRowSets_def rangeEntries_def List.map_filter_def ensureSet_def
     fetchSomeIDs_def selectIds_def cellAt_def insertIDs_def initialState_def buildChildToParents_def addEdge_def edgesOf_def
     idsOf_def fetchReferencedParentIDs_def selectDistinct_def idIn_def visitEdge_def

section \<open>The closure computes the reachable rows\<close>

lemma edge_in_build_iff:
  "e \<in> set (edgesOf (buildChildToParents allFks) c) \<longleftrightarrow>
     (\<exists>fk \<in> set allFks. hardFk fk \<and> FromTable fk = c \<and> e = edgeOfFk fk)"
  by (auto simp: edgesOf_build)

lemma seedRowSets_ids:
  "seedRowSets db rs es = Inr rs' \<Longrightarrow>
   idsOf rs' t = idsOf rs t \<union> (\<Union>(u, limit) \<in> set es.
                    if u = t then (case fetchSomeIDs db u limit of Inl _ \<Rightarrow> {} | Inr ids \<Rightarrow> set ids) else {})"
proof (induction es arbitrary: rs)
  case Nil
  then show ?case by simp
next
  case (Cons e es)
  obtain u limit where e: "e = (u, limit)" by (cases e)
  from Cons.prems obtain ids rs1 where
    f: "fetchSomeIDs db u limit = Inr ids"
    and i: "insertIDs rs u (set ids) = Inr rs1" and r: "seedRowSets db rs1 es = Inr rs'"
    by (auto simp: e split: sum.splits)
  have "idsOf rs1 t = (if t = u then idsOf rs u \<union> set ids else idsOf rs t)"
    using insertIDs_idsOf [OF i] .
  with Cons.IH [OF r] f show ?case by (auto simp: e)
qed

lemma seedRowSets_fetch_ok:
  "seedRowSets db rs es = Inr rs' \<Longrightarrow> (u, limit) \<in> set es \<Longrightarrow> \<exists>ids. fetchSomeIDs db u limit = Inr ids"
proof (induction es arbitrary: rs)
  case Nil
  then show ?case by simp
next
  case (Cons e es)
  obtain u' limit' where e: "e = (u', limit')" by (cases e)
  from Cons.prems(1) obtain ids rs1 where
    f: "fetchSomeIDs db u' limit' = Inr ids"
    and r: "seedRowSets db rs1 es = Inr rs'"
    by (auto simp: e split: sum.splits)
  show ?case
  proof (cases "(u, limit) = e")
    case True
    with f e show ?thesis by auto
  next
    case False
    with Cons.prems(2) have "(u, limit) \<in> set es" by simp
    from Cons.IH [OF r this] show ?thesis .
  qed
qed

lemma seeded_ids:
  assumes ord: "rangeOrder req ks"
    and seed: "seedRowSets db (initRowSets allFks req ks0) (rangeEntries req ks) = Inr rs"
  shows "idsOf rs t = seedIds db req t"
proof -
  let ?F = "\<lambda>(u, limit). if u = t then (case fetchSomeIDs db u limit of Inl _ \<Rightarrow> {} | Inr ids \<Rightarrow> set ids) else {}"
  have ids: "idsOf rs t = (\<Union>x \<in> set (rangeEntries req ks). ?F x)"
    using seedRowSets_ids [OF seed, of t] by (simp add: idsOf_initRowSets)
  show ?thesis
  proof (cases "req t")
    case None
    then have "\<And>x. x \<in> set (rangeEntries req ks) \<Longrightarrow> ?F x = {}"
      by (auto simp: set_rangeEntries split: if_splits)
    then show ?thesis using ids None by (simp add: seedIds_def)
  next
    case (Some limit)
    have mem: "(t, limit) \<in> set (rangeEntries req ks)"
      using Some ord by (auto simp: set_rangeEntries rangeOrder_def)
    have other: "\<And>x. x \<in> set (rangeEntries req ks) \<Longrightarrow> x \<noteq> (t, limit) \<Longrightarrow> ?F x = {}"
      using Some by (auto simp: set_rangeEntries split: if_splits)
    have "(\<Union>x \<in> set (rangeEntries req ks). ?F x) = ?F (t, limit)"
    proof
      show "(\<Union>x \<in> set (rangeEntries req ks). ?F x) \<subseteq> ?F (t, limit)"
      proof
        fix v assume "v \<in> (\<Union>x \<in> set (rangeEntries req ks). ?F x)"
        then obtain x where x: "x \<in> set (rangeEntries req ks)" and v: "v \<in> ?F x" by blast
        then have "x = (t, limit)" using other [OF x] by blast
        with v show "v \<in> ?F (t, limit)" by simp
      qed
      show "?F (t, limit) \<subseteq> (\<Union>x \<in> set (rangeEntries req ks). ?F x)"
        using mem by blast
    qed
    then show ?thesis using ids Some by (simp add: seedIds_def)
  qed
qed

lemma closedAt_mono:
  assumes "closedAt db ctp rs t" and "idsOf rs' t = idsOf rs t"
    and "\<And>u. idsOf rs u \<subseteq> idsOf rs' u"
  shows "closedAt db ctp rs' t"
  using assms unfolding closedAt_def by (metis subset_trans)

lemma visitEdge_edgeInv:
  assumes inv: "edgeInv db ctp R S c D st"
    and e: "e \<in> set (edgesOf ctp c)"
    and v: "visitEdge db c e st = Inr st'"
    and ns: "noSelfEdge ctp" and rc: "refClosed db ctp R"
  shows "edgeInv db ctp R S c (insert e D) st'"
proof -
  let ?p = "ParentTable e"
  let ?rs = "rowSets st"
  from v obtain new rs' where
    f: "fetchReferencedParentIDs db c e (idsOf ?rs c) = Inr new"
    and i: "insertIDs ?rs ?p new = Inr rs'"
    and s: "st' = (if \<not> new \<subseteq> idsOf ?rs ?p \<and> \<not> enqueued st ?p
            then st\<lparr>rowSets := rs', queue := queue st @ [?p],
                    enqueued := (enqueued st)(?p := True),
                    enqueues := Suc (enqueues st)\<rparr>
            else st\<lparr>rowSets := rs'\<rparr>)"
    by (rule visitEdge_Inr)
  have pc: "?p \<noteq> c" using ns e by (simp add: noSelfEdge_def)
  have new: "new = refsOf db c (ChildColumn e) (idsOf ?rs c)" using fetchRefs_Inr [OF f] .
  have rs: "rowSets st' = rs'" using s by (simp split: if_splits)
  have ids: "\<And>u. idsOf rs' u = (if u = ?p then idsOf ?rs ?p \<union> new else idsOf ?rs u)"
    using insertIDs_idsOf [OF i] by simp
  have grow: "\<And>u. idsOf ?rs u \<subseteq> idsOf rs' u" using ids by auto
  from inv have dq: "distinct (queue st)" and enq: "\<And>t. enqueued st t = (t \<in> set (queue st))"
    and cq: "c \<notin> set (queue st)" and seeds: "\<And>t. S t \<subseteq> idsOf ?rs t"
    and sound: "\<And>t i. i \<in> idsOf ?rs t \<Longrightarrow> R t i"
    and closed: "\<And>t. t \<noteq> c \<Longrightarrow> t \<notin> set (queue st) \<Longrightarrow> closedAt db ctp ?rs t"
    and dn: "\<And>e. e \<in> D \<Longrightarrow> refsOf db c (ChildColumn e) (idsOf ?rs c) \<subseteq> idsOf ?rs (ParentTable e)"
    unfolding edgeInv_def by blast+
  have q': "queue st' = (if \<not> new \<subseteq> idsOf ?rs ?p \<and> \<not> enqueued st ?p then queue st @ [?p] else queue st)"
    and e': "enqueued st' = (if \<not> new \<subseteq> idsOf ?rs ?p \<and> \<not> enqueued st ?p then (enqueued st)(?p := True) else enqueued st)"
    using s by (simp_all split: if_splits)
  have 1: "distinct (queue st')" using dq enq q' by auto
  have 2: "\<And>t. enqueued st' t = (t \<in> set (queue st'))" using enq q' e' by auto
  have 3: "c \<notin> set (queue st')" using cq pc q' by auto
  have 4: "\<And>t. S t \<subseteq> idsOf rs' t" using seeds grow by blast
  have 5: "\<And>t i. i \<in> idsOf rs' t \<Longrightarrow> R t i"
  proof -
    fix t i assume a: "i \<in> idsOf rs' t"
    show "R t i"
    proof (cases "i \<in> idsOf ?rs t")
      case True
      then show ?thesis by (rule sound)
    next
      case False
      with a ids have t: "t = ?p" and "i \<in> new" by (auto split: if_splits)
      then obtain a where "a \<in> idsOf ?rs c" and "i \<in> rowRefs db c (ChildColumn e) a"
        unfolding new refsOf_def by blast
      then show ?thesis using rc e sound t unfolding refClosed_def by blast
    qed
  qed
  have inq: "?p \<in> set (queue st') \<or> new \<subseteq> idsOf ?rs ?p"
    using q' enq by auto
  have 6: "\<And>t. t \<noteq> c \<Longrightarrow> t \<notin> set (queue st') \<Longrightarrow> closedAt db ctp rs' t"
  proof -
    fix t assume tc: "t \<noteq> c" and tq: "t \<notin> set (queue st')"
    then have tq0: "t \<notin> set (queue st)" using q' by (auto split: if_splits)
    have "idsOf rs' t = idsOf ?rs t"
    proof (cases "t = ?p")
      case True
      with tq inq have "new \<subseteq> idsOf ?rs ?p" by blast
      with ids True show ?thesis by auto
    next
      case False
      with ids show ?thesis by simp
    qed
    then show "closedAt db ctp rs' t" using closedAt_mono [OF closed [OF tc tq0] _ grow] by blast
  qed
  have c_same: "idsOf rs' c = idsOf ?rs c" using ids pc by simp
  have 7: "\<And>d. d \<in> insert e D \<Longrightarrow> refsOf db c (ChildColumn d) (idsOf rs' c) \<subseteq> idsOf rs' (ParentTable d)"
  proof -
    fix d assume "d \<in> insert e D"
    then show "refsOf db c (ChildColumn d) (idsOf rs' c) \<subseteq> idsOf rs' (ParentTable d)"
    proof
      assume "d = e"
      then show ?thesis unfolding c_same using new ids by auto
    next
      assume "d \<in> D"
      from dn [OF this] grow show ?thesis unfolding c_same by blast
    qed
  qed
  show ?thesis unfolding edgeInv_def rs using 1 2 3 4 5 6 7 by blast
qed

lemma processEdges_edgeInv:
  assumes "edgeInv db ctp R S c D st"
    and "set es \<subseteq> set (edgesOf ctp c)"
    and "processEdges db c es st = Inr st'"
    and ns: "noSelfEdge ctp" and rc: "refClosed db ctp R"
  shows "edgeInv db ctp R S c (D \<union> set es) st'"
  using assms(1-3)
proof (induction es arbitrary: st D)
  case Nil
  then show ?case by simp
next
  case (Cons e es)
  from Cons.prems(3) obtain st1 where
    v: "visitEdge db c e st = Inr st1" and p: "processEdges db c es st1 = Inr st'"
    by (auto split: sum.splits)
  have e: "e \<in> set (edgesOf ctp c)" and es: "set es \<subseteq> set (edgesOf ctp c)"
    using Cons.prems(2) by simp_all
  have "edgeInv db ctp R S c (insert e D) st1"
    using visitEdge_edgeInv [OF Cons.prems(1) e v ns rc] .
  from Cons.IH [OF this es p] show ?case by simp
qed

lemma bfsInv_skip:
  assumes inv: "bfsInv db ctp R S st" and q: "queue st = c # rest" and empty: "idsOf (rowSets st) c = {}"
  shows "bfsInv db ctp R S (dequeue st c rest)"
proof -
  have "closedAt db ctp (rowSets st) c"
    using empty by (simp add: closedAt_def refsOf_def)
  then show ?thesis using inv q unfolding bfsInv_def dequeue_def by auto
qed

lemma bfsInv_step:
  assumes inv: "bfsInv db ctp R S st" and q: "queue st = c # rest"
    and p: "processEdges db c (edgesOf ctp c) (dequeue st c rest) = Inr st2"
    and ns: "noSelfEdge ctp" and rc: "refClosed db ctp R"
  shows "bfsInv db ctp R S st2"
proof -
  have "edgeInv db ctp R S c {} (dequeue st c rest)"
    using inv q unfolding bfsInv_def edgeInv_def dequeue_def by auto
  from processEdges_edgeInv [OF this subset_refl p ns rc]
  have "edgeInv db ctp R S c (set (edgesOf ctp c)) st2" by simp
  then show ?thesis unfolding bfsInv_def edgeInv_def closedAt_def by metis
qed

lemma bfsLoop_bfsInv:
  assumes run: "bfsLoop db ctp st = Some r"
    and inv: "bfsInv db ctp R S st"
    and ns: "noSelfEdge ctp" and rc: "refClosed db ctp R"
  shows "\<forall>s. r = Inr s \<longrightarrow> bfsInv db ctp R S s \<and> queue s = []"
proof (rule bfsLoop_rule [OF run, where I = "bfsInv db ctp R S"])
  show "bfsInv db ctp R S st" by (rule inv)
next
  fix s :: bfs_state and c rest
  assume "bfsInv db ctp R S s" "queue s = c # rest" "idsOf (rowSets s) c = {}"
  then show "bfsInv db ctp R S (dequeue s c rest)" by (rule bfsInv_skip)
next
  fix s :: bfs_state and c rest st2
  assume "bfsInv db ctp R S s" "queue s = c # rest"
    "processEdges db c (edgesOf ctp c) (dequeue s c rest) = Inr st2"
  then show "bfsInv db ctp R S st2" using bfsInv_step ns rc by blast
next
  fix e :: error
  show "\<forall>s. Inl e = Inr s \<longrightarrow> bfsInv db ctp R S s \<and> queue s = []" by simp
next
  fix s :: bfs_state
  assume "bfsInv db ctp R S s" "queue s = []"
  then show "\<forall>s'. Inr s = Inr s' \<longrightarrow> bfsInv db ctp R S s' \<and> queue s' = []" by simp
qed

lemma noSelfEdge_build: "noSelfEdge (buildChildToParents allFks)"
  using edges_parent_in_fks by (auto simp: noSelfEdge_def)

lemma refClosed_reachable:
  "refClosed db (buildChildToParents allFks) (reachable db (filter hardFk allFks) S)"
  unfolding refClosed_def
proof (intro allI impI, elim conjE)
  fix c a e v
  assume r: "reachable db (filter hardFk allFks) S c a"
    and e: "e \<in> set (edgesOf (buildChildToParents allFks) c)"
    and v: "v \<in> rowRefs db c (ChildColumn e) a"
  from e obtain fk where fk: "fk \<in> set allFks" "hardFk fk" "FromTable fk = c" "e = edgeOfFk fk"
    unfolding edge_in_build_iff by blast
  have "reachable db (filter hardFk allFks) S (ToTable fk) v"
    using reachable.ref [OF r, of fk v] fk v by (simp add: edgeOfFk_def)
  then show "reachable db (filter hardFk allFks) S (ParentTable e) v"
    using fk by (simp add: edgeOfFk_def)
qed

lemma initialState_bfsInv:
  assumes oq: "rangeOrder req ks"
    and S: "\<And>t. idsOf rs0 t = seedIds db req t"
  shows "bfsInv db ctp (reachable db fks (seedIds db req)) (seedIds db req) (initialState req ks rs0)"
proof -
  have q: "map fst (rangeEntries req ks) = ks"
    using oq by (simp add: fst_rangeEntries rangeOrder_def)
  have closed: "closedAt db ctp rs0 t" if "t \<notin> set ks" for t
  proof -
    from that oq have "req t = None" by (auto simp: rangeOrder_def)
    then have "idsOf rs0 t = {}" using S by (simp add: seedIds_def)
    then show ?thesis by (simp add: closedAt_def refsOf_def)
  qed
  show ?thesis
    unfolding bfsInv_def initialState_def q
    using oq S closed by (auto simp: rangeOrder_def intro: reachable.seed)
qed

lemma closure_Inr:
  assumes "closure cords db allFks req = Some (Inr st)"
  obtains rs0 where
    "seedRowSets db (initRowSets allFks req (ordInit cords)) (rangeEntries req (ordSeed cords)) = Inr rs0"
    "bfsLoop db (buildChildToParents allFks) (initialState req (ordQueue cords) rs0) = Some (Inr st)"
  using assms by (auto simp: closure_def split: sum.splits)

lemma closure_reachable_hard:
  assumes os: "rangeOrder req (ordSeed cords)"
    and oq: "rangeOrder req (ordQueue cords)"
    and run: "closure cords db allFks req = Some (Inr st)"
  shows "idsOf (rowSets st) t = {i. reachable db (filter hardFk allFks) (seedIds db req) t i}"
proof -
  let ?ctp = "buildChildToParents allFks"
  let ?S = "seedIds db req"
  let ?R = "reachable db (filter hardFk allFks) ?S"
  from run obtain rs0 where
    seed: "seedRowSets db (initRowSets allFks req (ordInit cords)) (rangeEntries req (ordSeed cords)) = Inr rs0"
    and loop: "bfsLoop db ?ctp (initialState req (ordQueue cords) rs0) = Some (Inr st)"
    by (rule closure_Inr)
  have S: "\<And>t. idsOf rs0 t = ?S t" using seeded_ids [OF os seed] .
  have "bfsInv db ?ctp ?R ?S (initialState req (ordQueue cords) rs0)"
    using initialState_bfsInv [OF oq S] .
  from bfsLoop_bfsInv [OF loop this noSelfEdge_build refClosed_reachable]
  have inv: "bfsInv db ?ctp ?R ?S st" and q: "queue st = []" by simp_all
  from inv q have seeds: "\<And>t. ?S t \<subseteq> idsOf (rowSets st) t"
    and sound: "\<And>t i. i \<in> idsOf (rowSets st) t \<Longrightarrow> ?R t i"
    and closed: "\<And>t. closedAt db ?ctp (rowSets st) t"
    unfolding bfsInv_def by auto
  have complete: "i \<in> idsOf (rowSets st) t" if "?R t i" for t i
    using that
  proof (induction rule: reachable.induct)
    case (seed i t)
    then show ?case using seeds by blast
  next
    case (ref c a fk v)
    from ref.hyps(2) have fk: "fk \<in> set allFks" "hardFk fk" by simp_all
    have "edgeOfFk fk \<in> set (edgesOf ?ctp c)"
      unfolding edge_in_build_iff using fk ref.hyps(3) by blast
    with closed [of c] have "refsOf db c (FromColumn fk) (idsOf (rowSets st) c) \<subseteq> idsOf (rowSets st) (ToTable fk)"
      unfolding closedAt_def by (force simp: edgeOfFk_def)
    moreover have "v \<in> refsOf db c (FromColumn fk) (idsOf (rowSets st) c)"
      using ref.IH ref.hyps(4) unfolding refsOf_def by blast
    ultimately show ?case by blast
  qed
  show ?thesis using sound complete by blast
qed

lemma acyclic_hard:
  assumes "acyclic (fkGraph allFks)"
  shows "filter hardFk allFks = filter (\<lambda>fk. \<not> IsNullable fk) allFks"
proof (rule filter_cong [OF refl])
  fix fk assume fk: "fk \<in> set allFks"
  show "hardFk fk = (\<not> IsNullable fk)"
  proof (cases "IsNullable fk")
    case True
    then show ?thesis by (simp add: hardFk_def)
  next
    case False
    have "FromTable fk \<noteq> ToTable fk"
    proof
      assume "FromTable fk = ToTable fk"
      with fk False have "(ToTable fk, ToTable fk) \<in> fkGraph allFks"
        unfolding fkGraph_def by auto
      with assms show False unfolding acyclic_def by blast
    qed
    with False show ?thesis by (simp add: hardFk_def)
  qed
qed

lemma closure_rowSets_eq:
  assumes "rangeOrder req (ordInit c1)" "rangeOrder req (ordSeed c1)" "rangeOrder req (ordQueue c1)"
    and "rangeOrder req (ordInit c2)" "rangeOrder req (ordSeed c2)" "rangeOrder req (ordQueue c2)"
    and r1: "closure c1 db allFks req = Some (Inr st1)"
    and r2: "closure c2 db allFks req = Some (Inr st2)"
  shows "rowSets st1 = rowSets st2"
proof
  fix t
  have ids: "idsOf (rowSets st1) t = idsOf (rowSets st2) t"
    using closure_reachable_hard [OF assms(2,3) r1] closure_reachable_hard [OF assms(5,6) r2] by simp
  have d: "dom (rowSets st) = FromTable ` set allFks \<union> ToTable ` set allFks \<union> dom req"
    if o: "rangeOrder req (ordInit c)" and r: "closure c db allFks req = Some (Inr st)" for c st
  proof -
    from r obtain rs0 where
      seed: "seedRowSets db (initRowSets allFks req (ordInit c)) (rangeEntries req (ordSeed c)) = Inr rs0"
      and loop: "bfsLoop db (buildChildToParents allFks) (initialState req (ordQueue c) rs0) = Some (Inr st)"
      by (rule closure_Inr)
    have d0: "dom rs0 = FromTable ` set allFks \<union> ToTable ` set allFks \<union> dom req"
      using seedRowSets_dom [OF seed] o by (auto simp: dom_initRowSets rangeOrder_def)
    have "\<forall>u e. e \<in> set (edgesOf (buildChildToParents allFks) u) \<longrightarrow>
            ParentTable e \<in> dom (rowSets (initialState req (ordQueue c) rs0))"
      using edges_parent_in_fks d0 by (auto simp: initialState_def)
    from bfsLoop_no_panic [OF loop this] d0 show ?thesis by (simp add: initialState_def)
  qed
  have "dom (rowSets st1) = dom (rowSets st2)"
    using d [OF assms(1) r1] d [OF assms(4) r2] by simp
  then have "(rowSets st1 t = None) = (rowSets st2 t = None)"
    by (metis domIff)
  then show "rowSets st1 t = rowSets st2 t"
    using ids by (cases "rowSets st1 t"; cases "rowSets st2 t") (auto simp: idsOf_def)
qed

lemma set_tablesNeedingCopy:
  assumes "rangeOrder rs ks"
  shows "set (tablesNeedingCopy rs ks) = {t. idsOf rs t \<noteq> {}}"
proof -
  have "set (tablesNeedingCopy rs ks) = {t. \<exists>s. t \<in> set ks \<and> rs t = Some s \<and> s \<noteq> {}}"
    by (force simp: tablesNeedingCopy_def set_rangeEntries)
  also have "\<dots> = {t. idsOf rs t \<noteq> {}}"
    using assms by (auto simp: rangeOrder_def idsOf_def split: option.splits)
  finally show ?thesis .
qed

section \<open>The topological sort\<close>

lemma indexOf_less: "x \<in> set xs \<Longrightarrow> indexOf xs x < length xs"
  by (induction xs) auto

lemma indexOf_append:
  "indexOf (xs @ ys) x = (if x \<in> set xs then indexOf xs x else length xs + indexOf ys x)"
  by (induction xs) auto

lemma rangeEntries_Nil: "rangeEntries m [] = []"
  by (simp add: rangeEntries_def List.map_filter_def)

lemma rangeEntries_Cons:
  "rangeEntries m (k # ks) =
     (case m k of None \<Rightarrow> rangeEntries m ks | Some v \<Rightarrow> (k, v) # rangeEntries m ks)"
  by (simp add: rangeEntries_def List.map_filter_def split: option.splits)

lemma degOf_upd: "degOf (d(k \<mapsto> v)) c = (if c = k then v else degOf d c)"
  by (simp add: degOf_def)

lemma parentsOf_None: "m c = None \<Longrightarrow> parentsOf m c = []"
  by (simp add: parentsOf_def)

lemma parentsOf_Some: "m c = Some ps \<Longrightarrow> parentsOf m c = ps"
  by (simp add: parentsOf_def)

text \<open>The in-degree count.\<close>

lemma countParents_deg:
  "degOf (countParents deg (t, ps)) c =
     (if c = t then degOf deg t + int (length ps) else degOf deg c)"
proof -
  define f where "f = (\<lambda>(d::string \<rightharpoonup> int) (_::string). d(t \<mapsto> degOf d t + 1))"
  have "degOf (foldl f deg ps) c = (if c = t then degOf deg t + int (length ps) else degOf deg c)"
    by (induction ps arbitrary: deg) (simp_all add: f_def degOf_upd)
  then show ?thesis by (simp add: countParents_def f_def)
qed

lemma countParents_dom:
  "dom (countParents deg (t, ps)) = (if ps = [] then dom deg else insert t (dom deg))"
proof -
  define f where "f = (\<lambda>(d::string \<rightharpoonup> int) (_::string). d(t \<mapsto> degOf d t + 1))"
  have "dom (foldl f deg ps) = (if ps = [] then dom deg else insert t (dom deg))"
    by (induction ps arbitrary: deg) (simp_all add: f_def)
  then show ?thesis by (simp add: countParents_def f_def)
qed

lemma count_outer:
  "distinct ks \<Longrightarrow>
   degOf (foldl countParents deg0 (rangeEntries m ks)) c =
     (if c \<in> set ks then degOf deg0 c + int (length (parentsOf m c)) else degOf deg0 c)"
proof (induction ks arbitrary: deg0)
  case Nil
  then show ?case by (simp add: rangeEntries_Nil)
next
  case (Cons k ks)
  show ?case
  proof (cases "m k")
    case None
    then show ?thesis using Cons by (auto simp: rangeEntries_Cons parentsOf_None)
  next
    case (Some ps)
    then show ?thesis using Cons by (auto simp: rangeEntries_Cons parentsOf_Some countParents_deg)
  qed
qed

lemma count_outer_dom:
  "dom (foldl countParents deg0 (rangeEntries m ks)) \<subseteq> dom deg0 \<union> (set ks \<inter> dom m)
   \<and> dom deg0 \<subseteq> dom (foldl countParents deg0 (rangeEntries m ks))"
proof (induction ks arbitrary: deg0)
  case Nil
  then show ?case by (simp add: rangeEntries_Nil)
next
  case (Cons k ks)
  show ?case
  proof (cases "m k")
    case None
    then show ?thesis using Cons [of deg0] by (auto simp: rangeEntries_Cons)
  next
    case (Some ps)
    let ?d1 = "countParents deg0 (k, ps)"
    have "dom ?d1 \<subseteq> insert k (dom deg0)" "dom deg0 \<subseteq> dom ?d1"
      by (auto simp: countParents_dom split: if_splits)
    moreover have "k \<in> dom m" using Some by blast
    ultimately show ?thesis using Cons [of ?d1] Some
      unfolding rangeEntries_Cons by (simp, blast)
  qed
qed

lemma initInDegree_foldl:
  "foldl (\<lambda>m t. m(t \<mapsto> 0)) m0 ts x = (if x \<in> set ts then Some 0 else m0 x)"
  by (induction ts arbitrary: m0) auto

lemma initInDegree_apply: "initInDegree ts x = (if x \<in> set ts then Some 0 else None)"
  by (simp add: initInDegree_def initInDegree_foldl)

lemma calcInDegree_deg:
  assumes "distinct ks" "set ks = set ts"
  shows "degOf (calcInDegree (buildDepMap allFks ts) (initInDegree ts) ks) c =
           int (length (parentsOf (buildDepMap allFks ts) c))"
proof -
  have z: "degOf (initInDegree ts) c = 0"
    by (simp add: degOf_def initInDegree_apply)
  have "c \<notin> set ts \<Longrightarrow> parentsOf (buildDepMap allFks ts) c = []"
    using dom_buildDepMap [of allFks ts] by (auto simp: parentsOf_def split: option.splits)
  then show ?thesis
    unfolding calcInDegree_def count_outer [OF assms(1)] using z assms(2) by auto
qed

lemma calcInDegree_dom:
  "dom (calcInDegree (buildDepMap allFks ts) (initInDegree ts) ks) = set ts"
proof -
  have d: "dom (initInDegree ts) = set ts" by (auto simp: initInDegree_apply dom_def)
  show ?thesis
    unfolding calcInDegree_def
    using count_outer_dom [where ?deg0.0 = "initInDegree ts" and ks = ks and m = "buildDepMap allFks ts"]
      dom_buildDepMap [of allFks ts] d
    by blast
qed

lemma zeroQueue_eq:
  "zeroQueue inDegree ks = filter (\<lambda>t. inDegree t = Some 0) ks"
  by (induction ks) (auto simp: zeroQueue_def rangeEntries_Cons rangeEntries_Nil split: option.splits)

lemma relax_entry:
  "relax cur (d, q) (k, ps) =
     (if cur \<in> set ps
      then (d(k \<mapsto> degOf d k - 1), if degOf d k - 1 = 0 then q @ [k] else q)
      else (d, q))"
  by (simp add: relax_def Let_def degOf_upd)

lemma relax_fold:
  "distinct ks \<Longrightarrow>
   (\<forall>c. degOf (fst (foldl (relax cur) (d, q) (rangeEntries m ks))) c =
        (if c \<in> set ks \<and> cur \<in> set (parentsOf m c) then degOf d c - 1 else degOf d c))
   \<and> snd (foldl (relax cur) (d, q) (rangeEntries m ks)) =
        q @ filter (\<lambda>c. cur \<in> set (parentsOf m c) \<and> degOf d c = 1) ks"
proof (induction ks arbitrary: d q)
  case Nil
  then show ?case by (simp add: rangeEntries_Nil)
next
  case (Cons k ks)
  from Cons.prems have kn: "k \<notin> set ks" and dk: "distinct ks" by simp_all
  show ?case
  proof (cases "m k")
    case None
    then show ?thesis using Cons.IH [OF dk, of d q]
      by (auto simp: rangeEntries_Cons parentsOf_None)
  next
    case (Some ps)
    show ?thesis
    proof (cases "cur \<in> set ps")
      case False
      then show ?thesis using Cons.IH [OF dk, of d q] Some
        by (auto simp: rangeEntries_Cons parentsOf_Some relax_entry)
    next
      case True
      define d1 where "d1 = d(k \<mapsto> degOf d k - 1)"
      define q1 where "q1 = (if degOf d k - 1 = 0 then q @ [k] else q)"
      have dk1: "degOf d1 c = (if c = k then degOf d k - 1 else degOf d c)" for c
        by (simp add: d1_def degOf_upd)
      have f: "filter (\<lambda>c. cur \<in> set (parentsOf m c) \<and> degOf d1 c = 1) ks =
               filter (\<lambda>c. cur \<in> set (parentsOf m c) \<and> degOf d c = 1) ks"
        by (rule filter_cong) (use kn dk1 in auto)
      have step: "foldl (relax cur) (d, q) (rangeEntries m (k # ks)) =
                  foldl (relax cur) (d1, q1) (rangeEntries m ks)"
        using Some True by (simp add: rangeEntries_Cons relax_entry d1_def q1_def)
      from Cons.IH [OF dk, of d1 q1]
      have ih1: "\<And>c. degOf (fst (foldl (relax cur) (d1, q1) (rangeEntries m ks))) c =
                  (if c \<in> set ks \<and> cur \<in> set (parentsOf m c) then degOf d1 c - 1 else degOf d1 c)"
        and ih2: "snd (foldl (relax cur) (d1, q1) (rangeEntries m ks)) =
                  q1 @ filter (\<lambda>c. cur \<in> set (parentsOf m c) \<and> degOf d1 c = 1) ks"
        by blast+
      have pk: "parentsOf m k = ps" using Some by (rule parentsOf_Some)
      have g1: "degOf (fst (foldl (relax cur) (d1, q1) (rangeEntries m ks))) c =
                  (if c \<in> set (k # ks) \<and> cur \<in> set (parentsOf m c) then degOf d c - 1 else degOf d c)" for c
        unfolding ih1 dk1 using kn True pk by auto
      have g2: "snd (foldl (relax cur) (d1, q1) (rangeEntries m ks)) =
                  q @ filter (\<lambda>c. cur \<in> set (parentsOf m c) \<and> degOf d c = 1) (k # ks)"
      proof -
        have "snd (foldl (relax cur) (d1, q1) (rangeEntries m ks)) =
                q1 @ filter (\<lambda>c. cur \<in> set (parentsOf m c) \<and> degOf d c = 1) ks"
          using ih2 f by simp
        also have "\<dots> = q @ filter (\<lambda>c. cur \<in> set (parentsOf m c) \<and> degOf d c = 1) (k # ks)"
          using True pk by (auto simp: q1_def)
        finally show ?thesis .
      qed
      show ?thesis unfolding step using g1 g2 by blast
    qed
  qed
qed

lemma relax_fold_deg:
  "distinct ks \<Longrightarrow>
   degOf (fst (foldl (relax cur) (d, q) (rangeEntries m ks))) c =
     (if c \<in> set ks \<and> cur \<in> set (parentsOf m c) then degOf d c - 1 else degOf d c)"
  using relax_fold by blast

lemma relax_fold_queue:
  "distinct ks \<Longrightarrow>
   snd (foldl (relax cur) (d, q) (rangeEntries m ks)) =
     q @ filter (\<lambda>c. cur \<in> set (parentsOf m c) \<and> degOf d c = 1) ks"
  using relax_fold by blast

lemma kahnInv_parents_sorted:
  assumes inv: "kahnInv dm deg qu srt" and c: "c \<in> set (srt @ qu)"
  shows "set (parentsOf dm c) \<subseteq> set srt"
proof -
  let ?P = "parentsOf dm c"
  from inv c have ck: "c \<in> dom dm" unfolding kahnInv_def by blast
  with inv c have "degOf deg c = 0"
    and "degOf deg c = int (length ?P) - int (card (set ?P \<inter> set srt))"
    unfolding kahnInv_def by blast+
  then have eq: "length ?P = card (set ?P \<inter> set srt)" by simp
  have "card (set ?P \<inter> set srt) \<le> card (set ?P)" by (simp add: card_mono)
  moreover have "card (set ?P) \<le> length ?P" by (rule card_length)
  ultimately have "card (set ?P \<inter> set srt) = card (set ?P)" using eq by simp
  then have "set ?P \<inter> set srt = set ?P"
    by (intro card_subset_eq) simp_all
  then show ?thesis by blast
qed

lemma kahnInv_step:
  assumes inv: "kahnInv dm deg (cur # rest) srt"
    and ks: "distinct ks" "set ks = dom dm"
  shows "kahnInv dm (fst (foldl (relax cur) (deg, rest) (rangeEntries dm ks)))
           (snd (foldl (relax cur) (deg, rest) (rangeEntries dm ks))) (srt @ [cur])"
proof -
  let ?P = "parentsOf dm"
  let ?s = "foldl (relax cur) (deg, rest) (rangeEntries dm ks)"
  let ?new = "filter (\<lambda>c. cur \<in> set (?P c) \<and> degOf deg c = 1) ks"
  have deg': "degOf (fst ?s) c = (if cur \<in> set (?P c) then degOf deg c - 1 else degOf deg c)" for c
  proof (cases "c \<in> set ks")
    case True
    then show ?thesis by (simp add: relax_fold_deg [OF ks(1)])
  next
    case False
    then have "?P c = []" using ks(2) by (auto simp: parentsOf_def split: option.splits)
    then show ?thesis by (simp add: relax_fold_deg [OF ks(1)])
  qed
  have qu': "snd ?s = rest @ ?new" by (rule relax_fold_queue [OF ks(1)])
  from inv have dist: "distinct (srt @ cur # rest)" and sub: "set (srt @ cur # rest) \<subseteq> dom dm"
    and cnt: "\<And>c. c \<in> dom dm \<Longrightarrow> degOf deg c = int (length (?P c)) - int (card (set (?P c) \<inter> set srt))"
    and zero: "\<And>c. c \<in> dom dm \<Longrightarrow> (c \<in> set (srt @ cur # rest)) = (degOf deg c = 0)"
    and topo: "\<And>c p. c \<in> set srt \<Longrightarrow> p \<in> set (?P c) \<Longrightarrow> indexOf srt p < indexOf srt c"
    unfolding kahnInv_def by blast+
  have par: "\<And>c. c \<in> set (srt @ cur # rest) \<Longrightarrow> set (?P c) \<subseteq> set srt"
    using kahnInv_parents_sorted [OF inv] .
  have cur_ns: "cur \<notin> set srt" using dist by auto
  have new_fresh: "\<And>c. c \<in> set ?new \<Longrightarrow> c \<notin> set (srt @ cur # rest)"
  proof -
    fix c assume c: "c \<in> set ?new"
    then have "c \<in> dom dm" "degOf deg c = 1" using ks(2) by auto
    then show "c \<notin> set (srt @ cur # rest)" using zero by auto
  qed
  have a1: "distinct ((srt @ [cur]) @ rest @ ?new)"
    using dist ks(1) new_fresh by (auto simp: distinct_filter)
  have a2: "set ((srt @ [cur]) @ rest @ ?new) \<subseteq> dom dm"
    using sub ks(2) by auto
  have b: "degOf (fst ?s) c = int (length (?P c)) - int (card (set (?P c) \<inter> set (srt @ [cur])))"
    if c: "c \<in> dom dm" for c
  proof (cases "cur \<in> set (?P c)")
    case True
    have "set (?P c) \<inter> set (srt @ [cur]) = insert cur (set (?P c) \<inter> set srt)"
      using True by auto
    moreover have "cur \<notin> set (?P c) \<inter> set srt" using cur_ns by simp
    ultimately have "card (set (?P c) \<inter> set (srt @ [cur])) = Suc (card (set (?P c) \<inter> set srt))"
      by simp
    then show ?thesis using True cnt [OF c] by (simp add: deg')
  next
    case False
    then have "set (?P c) \<inter> set (srt @ [cur]) = set (?P c) \<inter> set srt" by auto
    then show ?thesis using False cnt [OF c] by (simp add: deg')
  qed
  have c3: "(c \<in> set ((srt @ [cur]) @ rest @ ?new)) = (degOf (fst ?s) c = 0)"
    if c: "c \<in> dom dm" for c
  proof (cases "cur \<in> set (?P c)")
    case True
    then have "c \<notin> set (srt @ cur # rest)" using par [of c] cur_ns by auto
    moreover have "(c \<in> set ?new) = (degOf deg c = 1)" using True c ks(2) by auto
    ultimately show ?thesis using True by (auto simp: deg')
  next
    case False
    then have "c \<notin> set ?new" by simp
    then show ?thesis using False zero [OF c] by (auto simp: deg')
  qed
  have e: "indexOf (srt @ [cur]) p < indexOf (srt @ [cur]) c"
    if c: "c \<in> set (srt @ [cur])" and p: "p \<in> set (?P c)" for c p
  proof -
    have ps: "p \<in> set srt" using par [of c] c p by auto
    show ?thesis
    proof (cases "c \<in> set srt")
      case True
      then show ?thesis using topo [OF True p] ps by (simp add: indexOf_append)
    next
      case False
      then show ?thesis using ps indexOf_less [OF ps] by (simp add: indexOf_append)
    qed
  qed
  show ?thesis
    unfolding kahnInv_def qu' using a1 a2 b c3 e by blast
qed

lemma kahnLoop_total:
  assumes fin: "finite (dom dm)"
    and ord: "\<And>n. distinct (ord n) \<and> set (ord n) = dom dm"
    and inv: "kahnInv dm deg qu srt"
  shows "\<exists>res deg'. kahnLoop dm ord n deg qu srt = Some res \<and> kahnInv dm deg' [] res"
  using inv
proof (induction "card (dom dm - set srt)" arbitrary: n deg qu srt rule: less_induct)
  case less
  show ?case
  proof (cases qu)
    case Nil
    then have "kahnLoop dm ord n deg qu srt = Some srt" by (subst kahnLoop.simps) simp
    with less.prems Nil show ?thesis by blast
  next
    case (Cons cur rest)
    let ?s = "foldl (relax cur) (deg, rest) (rangeEntries dm (ord n))"
    have inv': "kahnInv dm (fst ?s) (snd ?s) (srt @ [cur])"
      using kahnInv_step [of dm deg cur rest srt "ord n"] less.prems Cons ord by simp
    have "cur \<in> dom dm" "cur \<notin> set srt"
      using less.prems Cons unfolding kahnInv_def by auto
    then have "dom dm - set (srt @ [cur]) \<subset> dom dm - set srt" by auto
    then have "card (dom dm - set (srt @ [cur])) < card (dom dm - set srt)"
      using fin by (intro psubset_card_mono) auto
    from less.hyps [OF this inv', of "Suc n"]
    obtain res deg' where "kahnLoop dm ord (Suc n) (fst ?s) (snd ?s) (srt @ [cur]) = Some res"
      and "kahnInv dm deg' [] res" by blast
    moreover have "kahnLoop dm ord n deg qu srt = kahnLoop dm ord (Suc n) (fst ?s) (snd ?s) (srt @ [cur])"
      using Cons by (subst kahnLoop.simps) (simp add: Let_def)
    ultimately show ?thesis by metis
  qed
qed

lemma topoOrderOk_sets:
  assumes "topoOrderOk tords allFks ts"
  shows "distinct (ordInDeg tords)" "set (ordInDeg tords) = set ts"
    "distinct (ordZero tords)" "set (ordZero tords) = set ts"
    "\<And>n. distinct (ordChild tords n) \<and> set (ordChild tords n) = dom (buildDepMap allFks ts)"
  using assms by (auto simp: topoOrderOk_def rangeOrder_def dom_buildDepMap calcInDegree_dom)

lemma kahnInv_initial:
  assumes ok: "topoOrderOk tords allFks ts"
  shows "kahnInv (buildDepMap allFks ts)
           (calcInDegree (buildDepMap allFks ts) (initInDegree ts) (ordInDeg tords))
           (zeroQueue (calcInDegree (buildDepMap allFks ts) (initInDegree ts) (ordInDeg tords)) (ordZero tords))
           []"
proof -
  let ?dm = "buildDepMap allFks ts"
  let ?deg = "calcInDegree ?dm (initInDegree ts) (ordInDeg tords)"
  note o = topoOrderOk_sets [OF ok]
  have deg: "\<And>c. degOf ?deg c = int (length (parentsOf ?dm c))"
    using calcInDegree_deg [OF o(1,2)] .
  have dd: "dom ?deg = set ts" by (rule calcInDegree_dom)
  have z: "(?deg c = Some 0) = (degOf ?deg c = 0)" if "c \<in> set ts" for c
  proof -
    from that dd obtain v where "?deg c = Some v" by blast
    then show ?thesis by (simp add: degOf_def)
  qed
  show ?thesis
    unfolding kahnInv_def zeroQueue_eq
    using o(3,4) deg z by (auto simp: dom_buildDepMap)
qed

lemma partialTopoSort_total:
  assumes ok: "topoOrderOk tords allFks ts"
  shows "\<exists>srt deg'. partialTopoSort tords allFks ts =
             Some (if length srt \<noteq> length ts then Inl CycleOrMissingTable else Inr srt)
           \<and> kahnInv (buildDepMap allFks ts) deg' [] srt"
proof -
  let ?dm = "buildDepMap allFks ts"
  let ?deg = "calcInDegree ?dm (initInDegree ts) (ordInDeg tords)"
  have fin: "finite (dom ?dm)" by (simp add: dom_buildDepMap)
  from kahnLoop_total [where ord = "ordChild tords" and n = 0, OF fin topoOrderOk_sets(5) [OF ok]
      kahnInv_initial [OF ok]]
  obtain res deg' where
    "kahnLoop ?dm (ordChild tords) 0 ?deg (zeroQueue ?deg (ordZero tords)) [] = Some res"
    and "kahnInv ?dm deg' [] res" by blast
  then show ?thesis unfolding partialTopoSort_def Let_def by auto
qed

lemma depGraph_parents:
  "((c, p) \<in> depGraph allFks ts) = (p \<in> set (parentsOf (buildDepMap allFks ts) c))"
  by (auto simp: depGraph_def parentsOf_build)

lemma depGraph_sub: "(c, p) \<in> depGraph allFks ts \<Longrightarrow> c \<in> set ts \<and> p \<in> set ts \<and> c \<noteq> p"
  by (auto simp: depGraph_def depFk_def hardFk_def)

lemma distinct_map_filter_fst:
  "distinct (map (\<lambda>x. (f x, g x)) xs) \<Longrightarrow> distinct (map g (filter (\<lambda>x. f x = c) xs))"
  by (induction xs) (auto simp: image_iff)

lemma noParallel_distinct:
  assumes "noParallel allFks ts"
  shows "distinct (parentsOf (buildDepMap allFks ts) c)"
proof -
  have "filter (\<lambda>fk. depFk ts fk \<and> FromTable fk = c) allFks =
        filter (\<lambda>fk. FromTable fk = c) (filter (depFk ts) allFks)"
    by (simp add: conj_commute)
  then show ?thesis
    using distinct_map_filter_fst [of FromTable ToTable "filter (depFk ts) allFks" c] assms
    by (simp add: parentsOf_build noParallel_def)
qed

lemma no_sink_not_acyclic:
  assumes fin: "finite U" and ne: "U \<noteq> {}"
    and succ: "\<And>c. c \<in> U \<Longrightarrow> \<exists>p \<in> U. (c, p) \<in> G"
  shows "\<not> acyclic G"
proof
  assume ac: "acyclic G"
  let ?G' = "G \<inter> U \<times> U"
  have "finite ?G'" using fin by simp
  moreover have "acyclic ?G'" using ac by (rule acyclic_subset) simp
  ultimately have "wf (?G'\<inverse>)" by (rule finite_acyclic_wf_converse)
  then obtain z where z: "z \<in> U" and min: "\<And>y. (y, z) \<in> ?G'\<inverse> \<Longrightarrow> y \<notin> U"
    using ne by (metis wfE_min ex_in_conv)
  from succ [OF z] obtain p where "p \<in> U" "(z, p) \<in> G" by blast
  then have "(p, z) \<in> ?G'\<inverse>" using z by simp
  from min [OF this] \<open>p \<in> U\<close> show False by simp
qed

lemma kahn_final_sorted:
  assumes inv: "kahnInv (buildDepMap allFks ts) deg [] srt"
  shows "distinct srt" "set srt \<subseteq> set ts"
    "\<And>c p. c \<in> set srt \<Longrightarrow> (c, p) \<in> depGraph allFks ts \<Longrightarrow> indexOf srt p < indexOf srt c"
  using inv unfolding kahnInv_def depGraph_parents by (auto simp: dom_buildDepMap)

lemma kahn_complete_acyclic:
  assumes inv: "kahnInv (buildDepMap allFks ts) deg [] srt" and all: "set srt = set ts"
  shows "acyclic (depGraph allFks ts)"
proof (rule acyclicI_order [where f = "indexOf srt"])
  fix c p assume e: "(c, p) \<in> depGraph allFks ts"
  then have "c \<in> set srt" using depGraph_sub all by blast
  then show "indexOf srt p < indexOf srt c" using kahn_final_sorted(3) [OF inv] e by blast
qed

lemma kahn_incomplete_cyclic:
  assumes inv: "kahnInv (buildDepMap allFks ts) deg [] srt" and miss: "set srt \<noteq> set ts"
    and np: "noParallel allFks ts"
  shows "\<not> acyclic (depGraph allFks ts)"
proof (rule no_sink_not_acyclic [where U = "set ts - set srt"])
  show "finite (set ts - set srt)" by simp
  show "set ts - set srt \<noteq> {}" using miss kahn_final_sorted(2) [OF inv] by blast
next
  fix c assume c: "c \<in> set ts - set srt"
  let ?dm = "buildDepMap allFks ts"
  let ?P = "parentsOf ?dm c"
  from c have ck: "c \<in> dom ?dm" by (simp add: dom_buildDepMap)
  with inv c have nz: "degOf deg c \<noteq> 0"
    and cnt: "degOf deg c = int (length ?P) - int (card (set ?P \<inter> set srt))"
    unfolding kahnInv_def by auto
  have "length ?P = card (set ?P)" using noParallel_distinct [OF np] by (simp add: distinct_card)
  with nz cnt have "card (set ?P \<inter> set srt) \<noteq> card (set ?P)" by simp
  then have "set ?P \<inter> set srt \<noteq> set ?P" by metis
  then obtain p where p: "p \<in> set ?P" "p \<notin> set srt" by blast
  then have e: "(c, p) \<in> depGraph allFks ts" by (simp add: depGraph_parents)
  then have "p \<in> set ts" using depGraph_sub by blast
  with p e show "\<exists>p \<in> set ts - set srt. (c, p) \<in> depGraph allFks ts" by blast
qed

lemma distinct_same_length:
  assumes "distinct xs" "distinct ys" "set xs \<subseteq> set ys"
  shows "(length xs = length ys) = (set xs = set ys)"
proof
  assume "length xs = length ys"
  then have "card (set xs) = card (set ys)" using assms by (simp add: distinct_card)
  then show "set xs = set ys" using assms(3) by (intro card_subset_eq) simp_all
next
  assume "set xs = set ys"
  then show "length xs = length ys" using assms by (metis distinct_card)
qed

lemma topoOrderOk_iff:
  "topoOrderOk tords allFks ts =
     (distinct (ordInDeg tords) \<and> set (ordInDeg tords) = set ts
      \<and> distinct (ordZero tords) \<and> set (ordZero tords) = set ts
      \<and> (\<forall>n. distinct (ordChild tords n) \<and> set (ordChild tords n) = set ts))"
  by (auto simp: topoOrderOk_def rangeOrder_def dom_buildDepMap calcInDegree_dom)

lemmas topo_eval_defs = buildDepMap_def buildNeededSet_def initDepMap_def initInDegree_def
  addDep_def parentsOf_def degOf_def calcInDegree_def countParents_def rangeEntries_def
  List.map_filter_def zeroQueue_def kahnLoop.simps relax_def

lemma partialTopoSort_Inr:
  assumes ok: "topoOrderOk tords allFks ts"
    and res: "partialTopoSort tords allFks ts = Some (Inr srt)"
  obtains deg' where "kahnInv (buildDepMap allFks ts) deg' [] srt" "length srt = length ts"
proof -
  from partialTopoSort_total [OF ok] obtain s deg' where
    r: "partialTopoSort tords allFks ts = Some (if length s \<noteq> length ts then Inl CycleOrMissingTable else Inr s)"
    and inv: "kahnInv (buildDepMap allFks ts) deg' [] s" by blast
  from r res have "s = srt" "length srt = length ts" by (auto split: if_splits)
  with inv that show ?thesis by blast
qed

lemma partialTopoSort_acyclic:
  assumes ok: "topoOrderOk tords allFks ts" and d: "distinct ts"
    and np: "noParallel allFks ts" and ac: "acyclic (depGraph allFks ts)"
  shows "\<exists>srt. partialTopoSort tords allFks ts = Some (Inr srt) \<and> distinct srt \<and> set srt = set ts
           \<and> (\<forall>c p. (c, p) \<in> depGraph allFks ts \<longrightarrow> indexOf srt p < indexOf srt c)"
proof -
  from partialTopoSort_total [OF ok] obtain s deg' where
    r: "partialTopoSort tords allFks ts =
          Some (if length s \<noteq> length ts then Inl CycleOrMissingTable else Inr s)"
    and inv: "kahnInv (buildDepMap allFks ts) deg' [] s" by blast
  note fs = kahn_final_sorted [OF inv]
  have all: "set s = set ts" using kahn_incomplete_cyclic [OF inv _ np] ac by blast
  then have "length s = length ts" using distinct_same_length [OF fs(1) d fs(2)] by simp
  with r have "partialTopoSort tords allFks ts = Some (Inr s)" by simp
  moreover have "\<forall>c p. (c, p) \<in> depGraph allFks ts \<longrightarrow> indexOf s p < indexOf s c"
    using fs(3) depGraph_sub all by blast
  ultimately show ?thesis using fs(1) all by blast
qed

section \<open>Facts about the example data\<close>

lemma exState_run: "closure exOrd exDB exFks exReq = Some (Inr exState)"
  unfolding exState_def
  by (simp add: eval_defs bfsLoop.simps exOrd_def exDB_def exFks_def exReq_def)

lemma exOrd_ok:
  "rangeOrder exReq (ordInit exOrd)" "rangeOrder exReq (ordSeed exOrd)" "rangeOrder exReq (ordQueue exOrd)"
  by (simp_all add: rangeOrder_def exReq_def exOrd_def)

lemma exFks_acyclic: "acyclic (fkGraph exFks)"
proof (rule acyclicI_order [where f = exRank])
  fix a b assume "(a, b) \<in> fkGraph exFks"
  then show "exRank b < exRank a"
    by (auto simp: fkGraph_def exFks_def exRank_def)
qed

lemma exTopo_ok: "topoOrderOk exTopo exFks exNeeded"
  by (simp add: topoOrderOk_iff exTopo_def exNeeded_def)

lemma exTopo_run: "partialTopoSort exTopo exFks exNeeded = Some (Inr exSorted)"
  unfolding partialTopoSort_def Let_def
  by (simp add: topo_eval_defs exTopo_def exFks_def exNeeded_def exSorted_def)

lemma exNoParallel: "noParallel exFks exNeeded"
  by (simp add: noParallel_def exFks_def exNeeded_def depFk_def hardFk_def)

lemma parallel_fks_reported_as_cycle:
  "partialTopoSort (topoOf [''orders'', ''customers'']) dupFks [''orders'', ''customers''] =
     Some (Inl CycleOrMissingTable)
   \<and> acyclic (depGraph dupFks [''orders'', ''customers''])
   \<and> topoOrderOk (topoOf [''orders'', ''customers'']) dupFks [''orders'', ''customers'']"
proof -
  have r: "partialTopoSort (topoOf [''orders'', ''customers'']) dupFks [''orders'', ''customers''] =
     Some (Inl CycleOrMissingTable)"
    unfolding partialTopoSort_def Let_def
    by (simp add: topo_eval_defs topoOf_def dupFks_def)
  have a: "acyclic (depGraph dupFks [''orders'', ''customers''])"
  proof (rule acyclicI_order [where f = exRank])
    fix a b assume "(a, b) \<in> depGraph dupFks [''orders'', ''customers'']"
    then show "exRank b < exRank a"
      by (auto simp: depGraph_def dupFks_def exRank_def)
  qed
  have o: "topoOrderOk (topoOf [''orders'', ''customers'']) dupFks [''orders'', ''customers'']"
    by (simp add: topoOrderOk_iff topoOf_def)
  from r a o show ?thesis by blast
qed

lemma rangeOrder_single: "rangeOrder [k \<mapsto> v] ks \<Longrightarrow> ks = [k]"
proof -
  assume "rangeOrder [k \<mapsto> v] ks"
  then have d: "distinct ks" and s: "set ks = {k}" by (simp_all add: rangeOrder_def)
  then have "length ks = 1" using distinct_card [OF d] by simp
  then obtain x where "ks = [x]" by (cases ks) auto
  with s show ?thesis by simp
qed

lemma three_in_order:
  assumes "distinct s" "set s = {a, b, c}" "a \<noteq> b" "b \<noteq> c" "a \<noteq> c"
    and "indexOf s a < indexOf s b" "indexOf s b < indexOf s c"
  shows "s = [a, b, c]"
proof -
  have "length s = 3" using distinct_card [OF assms(1)] assms(2-5) by simp
  then obtain x y z where s: "s = [x, y, z]"
    by (metis (no_types, opaque_lifting) length_0_conv length_Suc_conv numeral_3_eq_3)
  show ?thesis using assms unfolding s by (auto split: if_splits)
qed

lemma exState_ids:
  "idsOf (rowSets exState) ''order_items'' = {10, 11}"
  "idsOf (rowSets exState) ''orders'' = {100, 101}"
  "idsOf (rowSets exState) ''customers'' = {5}"
  "dom (rowSets exState) = {''order_items'', ''orders'', ''customers''}"
  unfolding exState_def
  by (auto simp: eval_defs bfsLoop.simps exOrd_def exDB_def exFks_def exReq_def)

section \<open>The claims\<close>

text \<open>
  Claim C1. For an acyclic graph of non-nullable relationships (a non-nullable
  self-reference is a cycle) and any request, when the closure of
  \<^verbatim>\<open>SyncPartialData\<close> returns its row sets, the set of each table is exactly the set
  of rows reachable from the seed rows by following non-nullable child-to-parent
  references: every reachable row is in it and no other. A parent row is named by the
  value of the child column, as the program reads it. The orders of the map iterations
  are any a Go run can take.
\<close>

theorem closure_is_reachable_set:
  assumes "acyclic (fkGraph allFks)"
    and "rangeOrder requestedTables (ordSeed cords)"
    and "rangeOrder requestedTables (ordQueue cords)"
    and "closure cords db allFks requestedTables = Some (Inr st)"
  shows "idsOf (rowSets st) t =
           {i. reachable db (filter (\<lambda>fk. \<not> IsNullable fk) allFks) (seedIds db requestedTables) t i}"
  using closure_reachable_hard [OF assms(2,3,4)] acyclic_hard [OF assms(1)] by simp

theorem closure_is_reachable_set_witness:
  "acyclic (fkGraph exFks) \<and> rangeOrder exReq (ordSeed exOrd) \<and> rangeOrder exReq (ordQueue exOrd)
   \<and> closure exOrd exDB exFks exReq = Some (Inr exState)
   \<and> idsOf (rowSets exState) ''customers'' =
       {i. reachable exDB (filter (\<lambda>fk. \<not> IsNullable fk) exFks) (seedIds exDB exReq) ''customers'' i}"
  using closure_is_reachable_set [OF exFks_acyclic exOrd_ok(2) exOrd_ok(3) exState_run, of "''customers''"]
    exFks_acyclic exOrd_ok exState_run by blast

text \<open>
  Claim C2. In the order that \<^verbatim>\<open>partialTopoSort\<close> returns, for every relationship
  that is non-nullable and not self-referencing and whose child and parent tables both
  appear in the order, the parent table stands strictly before the child table. This
  holds for every order the iterations over the Go maps can take.
\<close>

theorem parents_before_children:
  assumes "topoOrderOk tords allFks neededTables"
    and "partialTopoSort tords allFks neededTables = Some (Inr srt)"
    and "fk \<in> set allFks" "\<not> IsNullable fk" "FromTable fk \<noteq> ToTable fk"
    and "FromTable fk \<in> set srt" "ToTable fk \<in> set srt"
  shows "indexOf srt (ToTable fk) < indexOf srt (FromTable fk)"
proof -
  from assms(1,2) obtain deg' where inv: "kahnInv (buildDepMap allFks neededTables) deg' [] srt"
    by (rule partialTopoSort_Inr)
  have "set srt \<subseteq> set neededTables" using kahn_final_sorted(2) [OF inv] .
  then have "depFk neededTables fk" using assms(4-7) by (auto simp: depFk_def hardFk_def)
  then have "(FromTable fk, ToTable fk) \<in> depGraph allFks neededTables"
    using assms(3) by (auto simp: depGraph_def)
  then show ?thesis using kahn_final_sorted(3) [OF inv] assms(6) by blast
qed

theorem parents_before_children_witness:
  "topoOrderOk exTopo exFks exNeeded
   \<and> partialTopoSort exTopo exFks exNeeded = Some (Inr exSorted)
   \<and> fkOC \<in> set exFks \<and> \<not> IsNullable fkOC \<and> FromTable fkOC \<noteq> ToTable fkOC
   \<and> FromTable fkOC \<in> set exSorted \<and> ToTable fkOC \<in> set exSorted
   \<and> indexOf exSorted (ToTable fkOC) < indexOf exSorted (FromTable fkOC)"
proof -
  have h: "fkOC \<in> set exFks" "\<not> IsNullable fkOC" "FromTable fkOC \<noteq> ToTable fkOC"
    "FromTable fkOC \<in> set exSorted" "ToTable fkOC \<in> set exSorted"
    by (simp_all add: fkOC_def exFks_def exSorted_def)
  from parents_before_children [OF exTopo_ok exTopo_run h] exTopo_ok exTopo_run h
  show ?thesis by blast
qed

text \<open>
  Claim C3, as amended. For a list of needed tables without repetition, and when no two
  relationships that count (non-nullable, not self-referencing, both tables needed) join
  the same child to the same parent, \<^verbatim>\<open>partialTopoSort\<close> always returns, and it
  returns its error if and only if those relationships have a cycle; otherwise its
  order holds every needed table exactly once. A referenced table that is not needed
  is never an error: the relationship is left out.
\<close>

theorem sort_fails_iff_cycle:
  assumes "topoOrderOk tords allFks neededTables"
    and "distinct neededTables"
    and "noParallel allFks neededTables"
  shows "\<exists>r. partialTopoSort tords allFks neededTables = Some r
           \<and> ((r = Inl CycleOrMissingTable) = (\<not> acyclic (depGraph allFks neededTables)))
           \<and> (case r of Inl _ \<Rightarrow> True
               | Inr srt \<Rightarrow> distinct srt \<and> set srt = set neededTables)"
proof -
  from partialTopoSort_total [OF assms(1)] obtain s deg' where
    r: "partialTopoSort tords allFks neededTables =
          Some (if length s \<noteq> length neededTables then Inl CycleOrMissingTable else Inr s)"
    and inv: "kahnInv (buildDepMap allFks neededTables) deg' [] s" by blast
  note fs = kahn_final_sorted [OF inv]
  have len: "(length s = length neededTables) = (set s = set neededTables)"
    using distinct_same_length [OF fs(1) assms(2) fs(2)] .
  show ?thesis
  proof (cases "set s = set neededTables")
    case True
    then have "acyclic (depGraph allFks neededTables)" using kahn_complete_acyclic [OF inv] by simp
    then show ?thesis using r len True fs(1) by auto
  next
    case False
    then have "\<not> acyclic (depGraph allFks neededTables)"
      using kahn_incomplete_cyclic [OF inv _ assms(3)] by simp
    then show ?thesis using r len False by auto
  qed
qed

theorem sort_fails_iff_cycle_witness:
  "topoOrderOk exTopo exFks exNeeded \<and> distinct exNeeded \<and> noParallel exFks exNeeded
   \<and> partialTopoSort exTopo exFks exNeeded = Some (Inr exSorted)
   \<and> acyclic (depGraph exFks exNeeded)"
proof -
  have d: "distinct exNeeded" by (simp add: exNeeded_def)
  from sort_fails_iff_cycle [OF exTopo_ok d exNoParallel] exTopo_run
  have "acyclic (depGraph exFks exNeeded)" by auto
  with exTopo_ok d exNoParallel exTopo_run show ?thesis by blast
qed

text \<open>
  Claim C3 as stated fails: with \<open>orders\<close> needed and its parent \<open>customers\<close> not,
  a referenced table is missing from the set and the sort succeeds.
\<close>

theorem missing_parent_is_no_error:
  "partialTopoSort (topoOf [''orders'']) [fkOC] [''orders''] = Some (Inr [''orders''])
   \<and> hardFk fkOC \<and> FromTable fkOC \<in> set [''orders''] \<and> ToTable fkOC \<notin> set [''orders'']
   \<and> \<not> ((partialTopoSort (topoOf [''orders'']) [fkOC] [''orders''] = Some (Inl CycleOrMissingTable))
         = (\<not> acyclic (depGraph [fkOC] [''orders''])
            \<or> (\<exists>fk \<in> set [fkOC]. hardFk fk \<and> FromTable fk \<in> set [''orders'']
                  \<and> ToTable fk \<notin> set [''orders''])))"
proof -
  have r: "partialTopoSort (topoOf [''orders'']) [fkOC] [''orders''] = Some (Inr [''orders''])"
    unfolding partialTopoSort_def Let_def
    by (simp add: topo_eval_defs topoOf_def fkOC_def)
  have h: "hardFk fkOC" "FromTable fkOC \<in> set [''orders'']" "ToTable fkOC \<notin> set [''orders'']"
    by (simp_all add: hardFk_def fkOC_def)
  show ?thesis using r h by auto
qed

text \<open>
  Claim C5. For every relationship list, the edges that \<^verbatim>\<open>SyncPartialData\<close> keeps for
  a child table are exactly the images of the relationships from that table that are
  neither self-referencing nor nullable, in list order; the parent lists of
  \<^verbatim>\<open>partialTopoSort\<close> are exactly the parents of such relationships with both
  tables needed. So no edge of either graph comes from a self-referencing or a nullable
  relationship.
\<close>

theorem graph_edges_hard_only:
  "edgesOf (buildChildToParents allFks) c =
     map edgeOfFk (filter (\<lambda>fk. FromTable fk \<noteq> ToTable fk \<and> \<not> IsNullable fk \<and> FromTable fk = c) allFks)
   \<and> parentsOf (buildDepMap allFks neededTables) c =
     map ToTable (filter (\<lambda>fk. FromTable fk \<noteq> ToTable fk \<and> \<not> IsNullable fk
        \<and> FromTable fk \<in> set neededTables \<and> ToTable fk \<in> set neededTables \<and> FromTable fk = c) allFks)"
  by (simp add: edgesOf_build parentsOf_build depFk_def hardFk_def conj_assoc)

text \<open>
  Claim C6. Before the loop of step 4 begins, every table named by a relationship (as
  child or as parent) and every requested table has an entry in \<^verbatim>\<open>rowSets\<close>; the
  run always ends, and never with the panic of a write to a nil inner map, so every
  lookup of a parent set finds a set and every insertion succeeds.
\<close>

theorem row_sets_cover_all_tables:
  assumes "rangeOrder requestedTables (ordInit cords)"
  shows "(case seedRowSets db (initRowSets allFks requestedTables (ordInit cords))
                (rangeEntries requestedTables (ordSeed cords)) of
            Inl e \<Rightarrow> e \<noteq> NilMapPanic
          | Inr rs \<Rightarrow> FromTable ` set allFks \<union> ToTable ` set allFks \<union> dom requestedTables = dom rs)
       \<and> (\<exists>r. closure cords db allFks requestedTables = Some r \<and> r \<noteq> Inl NilMapPanic)"
proof -
  let ?rs0 = "initRowSets allFks requestedTables (ordInit cords)"
  let ?es = "rangeEntries requestedTables (ordSeed cords)"
  have d0: "dom ?rs0 = FromTable ` set allFks \<union> ToTable ` set allFks \<union> dom requestedTables"
    using assms by (auto simp: dom_initRowSets rangeOrder_def)
  have keys: "fst ` set ?es \<subseteq> dom ?rs0"
    unfolding d0 keys_rangeEntries by blast
  have "case seedRowSets db ?rs0 ?es of
            Inl e \<Rightarrow> e \<noteq> NilMapPanic
          | Inr rs \<Rightarrow> FromTable ` set allFks \<union> ToTable ` set allFks \<union> dom requestedTables = dom rs"
  proof (cases "seedRowSets db ?rs0 ?es")
    case (Inl e)
    then show ?thesis using seedRowSets_no_panic [OF keys, of db] by auto
  next
    case (Inr rs)
    then show ?thesis using seedRowSets_dom [OF Inr] d0 by simp
  qed
  moreover obtain r where r: "closure cords db allFks requestedTables = Some r"
    using closure_terminates by blast
  moreover have "r \<noteq> Inl NilMapPanic"
    using closure_no_panic [OF assms, of db allFks] r by auto
  ultimately show ?thesis by blast
qed

theorem row_sets_cover_all_tables_witness:
  "rangeOrder exReq (ordInit exOrd)
   \<and> (\<exists>r. closure exOrd exDB exFks exReq = Some r \<and> r \<noteq> Inl NilMapPanic)"
proof -
  have h: "rangeOrder exReq (ordInit exOrd)"
    by (simp add: rangeOrder_def exReq_def exOrd_def)
  from row_sets_cover_all_tables [OF h, where db = exDB and allFks = exFks] h show ?thesis by blast
qed

text \<open>
  Claim C7, as amended. When a per-edge id fetch fails in some round of the loop of
  step 4 (after \<open>k\<close> rounds, for the dequeued table \<open>childTable\<close>, after the edges
  \<open>es1\<close> went through), \<^verbatim>\<open>SyncPartialData\<close> returns at once the error of the fetch
  wrapped as "fetchReferencedParentIDs error", and the destination is left as it was:
  nothing is scheduled, truncated or copied. The wrapper itself carries neither the table
  nor the edge.
\<close>

theorem fetch_failure_aborts_sync:
  assumes seed: "seedRowSets prodDB (initRowSets allFks requestedTables (ordInit cords))
                   (rangeEntries requestedTables (ordSeed cords)) = Inr rs0"
    and rounds: "bfsRounds prodDB (buildChildToParents allFks) k
                   (initialState requestedTables (ordQueue cords) rs0) = Inr st"
    and head: "queue st = childTable # rest"
    and ids: "idsOf (rowSets st) childTable \<noteq> {}"
    and edges: "edgesOf (buildChildToParents allFks) childTable = es1 @ edge # es2"
    and before: "processEdges prodDB childTable es1 (dequeue st childTable rest) = Inr st'"
    and fails: "fetchReferencedParentIDs prodDB childTable edge (idsOf (rowSets st') childTable) = Inl e"
  shows "SyncPartialData cords ordNeed tords prodDB devDB allFks requestedTables resetTables =
           Some (Some (FetchReferencedParentIDsError e), devDB)"
proof -
  let ?ctp = "buildChildToParents allFks"
  have "processEdges prodDB childTable (edgesOf ?ctp childTable) (dequeue st childTable rest) =
          Inl (FetchReferencedParentIDsError e)"
    unfolding edges processEdges_append before using visitEdge_fetch_fails [OF fails] by simp
  then have "bfsLoop prodDB ?ctp st = Some (Inl (FetchReferencedParentIDsError e))"
    using head ids by (simp add: bfsLoop_unfold_Cons)
  then have "bfsLoop prodDB ?ctp (initialState requestedTables (ordQueue cords) rs0) =
          Some (Inl (FetchReferencedParentIDsError e))"
    using bfsLoop_rounds [of prodDB ?ctp "initialState requestedTables (ordQueue cords) rs0" k] rounds
    by simp
  then have "closure cords prodDB allFks requestedTables = Some (Inl (FetchReferencedParentIDsError e))"
    using seed by (simp add: closure_def)
  then show ?thesis by (rule sync_closure_error)
qed

theorem fetch_failure_aborts_sync_witness:
  "SyncPartialData (ordOf ''a'') [] anyTopo badDB badDB [fkA] [''a'' \<mapsto> 1] True =
     Some (Some (FetchReferencedParentIDsError (UnknownColumn ''parent_id'')), badDB)"
proof -
  let ?req = "[''a'' \<mapsto> (1::int)]"
  let ?seed = "seedRowSets badDB (initRowSets [fkA] ?req (ordInit (ordOf ''a'')))
                 (rangeEntries ?req (ordSeed (ordOf ''a'')))"
  let ?st = "initialState ?req (ordQueue (ordOf ''a'')) (projr ?seed)"
  have h1: "?seed = Inr (projr ?seed)"
    by (simp add: eval_defs badDB_def fkA_def ordOf_def)
  have h2: "bfsRounds badDB (buildChildToParents [fkA]) 0 ?st = Inr ?st"
    by simp
  have h3: "queue ?st = ''a'' # []"
    by (simp add: initialState_def rangeEntries_def List.map_filter_def ordOf_def)
  have h4: "idsOf (rowSets ?st) ''a'' \<noteq> {}"
    by (simp add: eval_defs badDB_def fkA_def ordOf_def)
  have h5: "edgesOf (buildChildToParents [fkA]) ''a'' = [] @ edgeOfFk fkA # []"
    by (simp add: edgesOf_build hardFk_def fkA_def)
  have h6: "processEdges badDB ''a'' [] (dequeue ?st ''a'' []) = Inr (dequeue ?st ''a'' [])"
    by simp
  have h7: "fetchReferencedParentIDs badDB ''a'' (edgeOfFk fkA)
              (idsOf (rowSets (dequeue ?st ''a'' [])) ''a'') = Inl (UnknownColumn ''parent_id'')"
    by (simp add: eval_defs badDB_def fkA_def ordOf_def dequeue_def edgeOfFk_def)
  show ?thesis
    by (rule fetch_failure_aborts_sync [OF h1 h2 h3 h4 h5 h6 h7])
qed

text \<open>
  Claim C7 as stated fails: two runs whose fetch fails for different tables and different
  edges return the same error value, so the error does not identify the table or the edge.
\<close>

theorem fetch_error_names_no_table:
  "SyncPartialData (ordOf ''a'') [] anyTopo badDB badDB [fkA] [''a'' \<mapsto> 1] True =
     Some (Some (FetchReferencedParentIDsError (UnknownColumn ''parent_id'')), badDB)
   \<and> SyncPartialData (ordOf ''b'') [] anyTopo badDB badDB [fkB] [''b'' \<mapsto> 1] True =
     Some (Some (FetchReferencedParentIDsError (UnknownColumn ''parent_id'')), badDB)
   \<and> fetchReferencedParentIDs badDB ''a'' (edgeOfFk fkA) {1} = Inl (UnknownColumn ''parent_id'')
   \<and> fetchReferencedParentIDs badDB ''b'' (edgeOfFk fkB) {1} = Inl (UnknownColumn ''parent_id'')
   \<and> ''a'' \<noteq> ''b'' \<and> edgeOfFk fkA \<noteq> edgeOfFk fkB"
  unfolding SyncPartialData_def
  by (simp add: eval_defs bfsLoop.simps badDB_def fkA_def fkB_def ordOf_def edgeOfFk_def)

text \<open>
  Claim C10. For fixed source contents, relationships and request, any two runs that
  complete the closure, whatever orders their map iterations take (the seeding, the
  initial queue, the final scan of \<^verbatim>\<open>rowSets\<close>), end with the same row sets and so
  with the same set of tables needing copy.
\<close>

theorem closure_order_independent:
  assumes "rangeOrder requestedTables (ordInit c1)" "rangeOrder requestedTables (ordSeed c1)"
    "rangeOrder requestedTables (ordQueue c1)"
    and "rangeOrder requestedTables (ordInit c2)" "rangeOrder requestedTables (ordSeed c2)"
    "rangeOrder requestedTables (ordQueue c2)"
    and "rangeOrder (rowSets st1) need1" "rangeOrder (rowSets st2) need2"
    and "closure c1 db allFks requestedTables = Some (Inr st1)"
    and "closure c2 db allFks requestedTables = Some (Inr st2)"
  shows "rowSets st1 = rowSets st2
       \<and> set (tablesNeedingCopy (rowSets st1) need1) = set (tablesNeedingCopy (rowSets st2) need2)"
proof -
  have eq: "rowSets st1 = rowSets st2"
    using closure_rowSets_eq [OF assms(1-6) assms(9,10)] .
  have "set (tablesNeedingCopy rs ks) = {t. idsOf rs t \<noteq> {}}" if "rangeOrder rs ks" for rs ks
    using that by (rule set_tablesNeedingCopy)
  then show ?thesis using eq assms(7,8) by simp
qed

theorem closure_order_independent_witness:
  "rangeOrder exReq2 (ordInit exOrdA) \<and> rangeOrder exReq2 (ordSeed exOrdA)
   \<and> rangeOrder exReq2 (ordQueue exOrdA)
   \<and> rangeOrder exReq2 (ordInit exOrdB) \<and> rangeOrder exReq2 (ordSeed exOrdB)
   \<and> rangeOrder exReq2 (ordQueue exOrdB)
   \<and> rangeOrder (rowSets exStateA) [''customers'', ''orders'', ''order_items'']
   \<and> rangeOrder (rowSets exStateB) [''order_items'', ''orders'', ''customers'']
   \<and> closure exOrdA exDB exFks exReq2 = Some (Inr exStateA)
   \<and> closure exOrdB exDB exFks exReq2 = Some (Inr exStateB)
   \<and> rowSets exStateA = rowSets exStateB
   \<and> set (tablesNeedingCopy (rowSets exStateA) [''customers'', ''orders'', ''order_items'']) =
       set (tablesNeedingCopy (rowSets exStateB) [''order_items'', ''orders'', ''customers''])"
proof -
  have a: "rangeOrder exReq2 (ordInit exOrdA)" "rangeOrder exReq2 (ordSeed exOrdA)"
    "rangeOrder exReq2 (ordQueue exOrdA)"
    by (auto simp: rangeOrder_def exReq2_def exOrdA_def)
  have b: "rangeOrder exReq2 (ordInit exOrdB)" "rangeOrder exReq2 (ordSeed exOrdB)"
    "rangeOrder exReq2 (ordQueue exOrdB)"
    by (auto simp: rangeOrder_def exReq2_def exOrdB_def)
  have ra: "closure exOrdA exDB exFks exReq2 = Some (Inr exStateA)"
    unfolding exStateA_def
    by (simp add: eval_defs bfsLoop.simps exOrdA_def exDB_def exFks_def exReq2_def)
  have rb: "closure exOrdB exDB exFks exReq2 = Some (Inr exStateB)"
    unfolding exStateB_def
    by (simp add: eval_defs bfsLoop.simps exOrdB_def exDB_def exFks_def exReq2_def)
  have na: "rangeOrder (rowSets exStateA) [''customers'', ''orders'', ''order_items'']"
    unfolding exStateA_def rangeOrder_def
    by (auto simp: eval_defs bfsLoop.simps exOrdA_def exDB_def exFks_def exReq2_def)
  have nb: "rangeOrder (rowSets exStateB) [''order_items'', ''orders'', ''customers'']"
    unfolding exStateB_def rangeOrder_def
    by (auto simp: eval_defs bfsLoop.simps exOrdB_def exDB_def exFks_def exReq2_def)
  from closure_order_independent [OF a b na nb ra rb] a b na nb ra rb show ?thesis by blast
qed

end
